theory Spec2Isabelle
  imports Main "HOL-Library.Word"
begin

unbundle bit_operations_syntax

section \<open>Feistel network (feistel.hpp)\<close>

text \<open>
  \<^verbatim>\<open>size_t\<close> is an unsigned 64-bit integer. The template parameter \<^verbatim>\<open>Bits\<close> is a
  natural number; the key array is a list. \<^verbatim>\<open>(1ull << Bits) - 1\<close> and
  \<^verbatim>\<open>r_mask << Bits\<close> are written as in the source.
\<close>

type_synonym size_t = "64 word"

definition r_mask :: "nat \<Rightarrow> size_t" where
  "r_mask Bits = push_bit Bits 1 - 1"

definition l_mask :: "nat \<Rightarrow> size_t" where
  "l_mask Bits = push_bit Bits (r_mask Bits)"

text \<open>The loop of \<^verbatim>\<open>run_feistel_encrypt\<close>, one step for index \<open>i\<close> on the pair \<open>(l, r)\<close>.\<close>

definition encrypt_round ::
  "(size_t \<Rightarrow> size_t \<Rightarrow> size_t) \<Rightarrow> size_t list \<Rightarrow> nat \<Rightarrow> size_t \<times> size_t \<Rightarrow> size_t \<times> size_t" where
  "encrypt_round round_function keys i lr =
     (case lr of (l, r) \<Rightarrow>
        (let next_l = r;
             next_r = l XOR round_function r (keys ! i)
         in (next_l, next_r)))"

definition run_feistel_encrypt ::
  "nat \<Rightarrow> size_t \<Rightarrow> (size_t \<Rightarrow> size_t \<Rightarrow> size_t) \<Rightarrow> size_t list \<Rightarrow> size_t" where
  "run_feistel_encrypt Bits input round_function keys =
     (let r = input AND r_mask Bits;
          l = drop_bit Bits (input AND l_mask Bits)
      in case fold (encrypt_round round_function keys) [0..<length keys] (l, r) of
           (l', r') \<Rightarrow> r' OR push_bit Bits l')"

text \<open>The loop of \<^verbatim>\<open>run_feistel_decrypt\<close>: step \<open>i\<close> uses \<^verbatim>\<open>keys[keys.size() - 1 - i]\<close>.\<close>

definition decrypt_round ::
  "(size_t \<Rightarrow> size_t \<Rightarrow> size_t) \<Rightarrow> size_t list \<Rightarrow> nat \<Rightarrow> size_t \<times> size_t \<Rightarrow> size_t \<times> size_t" where
  "decrypt_round round_function keys i lr =
     (case lr of (l, r) \<Rightarrow>
        (let prev_r = l;
             prev_l = r XOR round_function l (keys ! (length keys - 1 - i))
         in (prev_l, prev_r)))"

definition run_feistel_decrypt ::
  "nat \<Rightarrow> size_t \<Rightarrow> (size_t \<Rightarrow> size_t \<Rightarrow> size_t) \<Rightarrow> size_t list \<Rightarrow> size_t" where
  "run_feistel_decrypt Bits input round_function keys =
     (let r = input AND r_mask Bits;
          l = drop_bit Bits (input AND l_mask Bits)
      in case fold (decrypt_round round_function keys) [0..<length keys] (l, r) of
           (l', r') \<Rightarrow> r' OR push_bit Bits l')"

text \<open>
  \<^verbatim>\<open>run_f\<close>: the masked probe function. \<open>callback\<close> is the oracle;
  \<^verbatim>\<open>a << Bits | mask\<close> parses as \<^verbatim>\<open>(a << Bits) | mask\<close>.
\<close>

definition run_f :: "nat \<Rightarrow> size_t \<Rightarrow> (size_t \<Rightarrow> size_t) \<Rightarrow> size_t \<Rightarrow> size_t \<Rightarrow> size_t" where
  "run_f Bits input callback alpha beta =
     (let w = (\<lambda>x. let bitmask = push_bit Bits 1 - 1;
                        result = drop_bit Bits (callback x)
                    in result AND bitmask);
          a = drop_bit 1 input;
          b = input AND 1;
          mask = (if b \<noteq> 0 then beta else alpha)
      in w (push_bit Bits a OR mask) XOR mask)"

text \<open>
  The round function of \<^verbatim>\<open>run_feistel_classic_test\<close> in main.cpp, used there with
  \<^verbatim>\<open>Bits = 4\<close> and the keys \<^verbatim>\<open>{1, 2, 3}\<close>.
\<close>

definition classic_round_function :: "size_t \<Rightarrow> size_t \<Rightarrow> size_t" where
  "classic_round_function input key =
     (let left_part = input AND 3;
          right_part = drop_bit 2 (input AND 3);
          right_part = right_part XOR key
      in push_bit 2 left_part OR right_part)"

text \<open>A round function whose results do not fit a half block: it multiplies by the key.\<close>

definition wide_round_function :: "size_t \<Rightarrow> size_t \<Rightarrow> size_t" where
  "wide_round_function input key = key * input"

text \<open>Auxiliary notions for the proofs: a value that fits a half block, and one round
  on the pair \<open>(l, r)\<close> with the key given directly.\<close>

definition half :: "nat \<Rightarrow> size_t \<Rightarrow> bool" where
  "half Bits x \<longleftrightarrow> take_bit Bits x = x"

definition enc_step ::
  "(size_t \<Rightarrow> size_t \<Rightarrow> size_t) \<Rightarrow> size_t \<Rightarrow> size_t \<times> size_t \<Rightarrow> size_t \<times> size_t" where
  "enc_step f k lr = (snd lr, fst lr XOR f (snd lr) k)"

definition dec_step ::
  "(size_t \<Rightarrow> size_t \<Rightarrow> size_t) \<Rightarrow> size_t \<Rightarrow> size_t \<times> size_t \<Rightarrow> size_t \<times> size_t" where
  "dec_step f k lr = (snd lr XOR f (fst lr) k, fst lr)"

section \<open>GF(2) solver (matrix.hpp)\<close>

text \<open>
  A \<^verbatim>\<open>std::array<bool, Width>\<close> is a list of booleans; both arguments of
  \<^verbatim>\<open>xor_vectors\<close> have the same width.
\<close>

definition xor_vectors :: "bool list \<Rightarrow> bool list \<Rightarrow> bool list" where
  "xor_vectors dest src = map2 (\<lambda>d s. d \<noteq> s) dest src"

definition zero_vector :: "bool list \<Rightarrow> bool" where
  "zero_vector src = list_all (\<lambda>b. \<not> b) src"

definition one_vector :: "bool list \<Rightarrow> bool" where
  "one_vector src = (list_all (\<lambda>b. \<not> b) (butlast src) \<and> last src)"

record solver =
  independent_rows :: nat
  contents :: "bool list list"
  targets :: "bool list"

text \<open>The two \<^verbatim>\<open>std::runtime_error\<close>s thrown by the class.\<close>

datatype error = Invalid_equation | Could_not_solve

definition MatrixSolver :: solver where
  "MatrixSolver = \<lparr>independent_rows = 0, contents = [], targets = []\<rparr>"

definition getIndependent :: "solver \<Rightarrow> nat" where
  "getIndependent s = independent_rows s"

text \<open>
  \<^verbatim>\<open>independent(row)\<close>. \<open>content_copy\<close> is the snapshot: the independent rows and
  the candidate row, each with its target bit as the last column.
\<close>

definition content_copy :: "solver \<Rightarrow> nat \<Rightarrow> bool list list" where
  "content_copy s row =
     map (\<lambda>i. contents s ! i @ [targets s ! i]) [0..<independent_rows s]
     @ [contents s ! row @ [targets s ! row]]"

text \<open>
  One iteration of the column loop on \<open>(row_offset, content_copy)\<close>; \<open>n\<close> is
  \<^verbatim>\<open>independent_rows + 1\<close>. The pivot search stops at the first row with a set entry
  (\<^verbatim>\<open>break\<close>). The second loop reads \<^verbatim>\<open>content_copy[row_offset-1]\<close> only after
  \<^verbatim>\<open>content_copy[k][j]\<close> was found set (\<^verbatim>\<open>&&\<close>).
\<close>

definition swap_rows :: "nat \<Rightarrow> nat \<Rightarrow> 'a list \<Rightarrow> 'a list" where
  "swap_rows a b M = M[a := M ! b, b := M ! a]"

definition eliminate_below :: "nat \<Rightarrow> nat \<Rightarrow> nat \<Rightarrow> bool list list \<Rightarrow> bool list list" where
  "eliminate_below n j row_offset M =
     fold (\<lambda>k M. if M ! k ! j then
                    (if M ! (row_offset - 1) ! j
                     then M[k := xor_vectors (M ! k) (M ! (row_offset - 1))] else M)
                  else M)
       [row_offset..<n] M"

definition eliminate_column :: "nat \<Rightarrow> nat \<Rightarrow> nat \<times> bool list list \<Rightarrow> nat \<times> bool list list" where
  "eliminate_column n j st =
     (case st of (row_offset, M) \<Rightarrow>
        (case find (\<lambda>k. M ! k ! j) [row_offset..<n] of
           Some k \<Rightarrow> (row_offset + 1, eliminate_below n j (row_offset + 1) (swap_rows k row_offset M))
         | None \<Rightarrow> (row_offset, eliminate_below n j row_offset M)))"

definition independent :: "nat \<Rightarrow> solver \<Rightarrow> nat \<Rightarrow> error + bool" where
  "independent Width s row =
     (case fold (eliminate_column (independent_rows s + 1)) [0..<Width + 1] (0, content_copy s row) of
        (row_offset, M) \<Rightarrow>
          if one_vector (M ! independent_rows s) then Inl Invalid_equation
          else Inr (\<not> zero_vector (M ! independent_rows s)))"

text \<open>
  \<^verbatim>\<open>addRow(new_row, solution)\<close>. The row is pushed before the test, so it stays in
  \<open>contents\<close> when \<^verbatim>\<open>independent\<close> throws: the error carries the solver as the
  exception leaves it.
\<close>

definition addRow :: "nat \<Rightarrow> bool list \<Rightarrow> bool \<Rightarrow> solver \<Rightarrow> error \<times> solver + solver" where
  "addRow Width new_row solution s =
     (let s1 = s\<lparr>contents := contents s @ [new_row], targets := targets s @ [solution]\<rparr>
      in case independent Width s1 (length (contents s1) - 1) of
           Inl e \<Rightarrow> Inl (e, s1)
         | Inr True \<Rightarrow>
             Inr (s1\<lparr>contents := swap_rows (independent_rows s1) (length (contents s1) - 1) (contents s1),
                     targets := swap_rows (independent_rows s1) (length (contents s1) - 1) (targets s1),
                     independent_rows := independent_rows s1 + 1\<rparr>)
         | Inr False \<Rightarrow> Inr s1)"

text \<open>
  The shifts \<^verbatim>\<open>1 << (i+1)\<close> and \<^verbatim>\<open>solution[i] << (i+1)\<close> are shifts of an
  \<^verbatim>\<open>int\<close> (32 bits), converted to \<^verbatim>\<open>size_t\<close> afterwards (sign extension). The source
  leaves a shift by 32 or more undefined; the model is exact for shifts below 32.
\<close>

definition int_shl :: "32 word \<Rightarrow> nat \<Rightarrow> size_t" where
  "int_shl x n = scast (push_bit n x)"

definition addRow_encoded :: "nat \<Rightarrow> size_t \<Rightarrow> solver \<Rightarrow> error \<times> solver + solver" where
  "addRow_encoded Width encoded s =
     (let new_row = map (\<lambda>i. let mask = int_shl 1 (i + 1) in encoded AND mask \<noteq> 0) [0..<Width]
      in addRow Width new_row (encoded AND 1 \<noteq> 0) s)"

text \<open>\<^verbatim>\<open>gaussianEliminate\<close>, one iteration of the loop over \<open>i\<close> on \<open>(contents, targets)\<close>.\<close>

definition gauss_eliminate_below ::
  "nat \<Rightarrow> nat \<Rightarrow> bool list list \<times> bool list \<Rightarrow> bool list list \<times> bool list" where
  "gauss_eliminate_below rows i CT =
     fold (\<lambda>j CT. case CT of (C, T) \<Rightarrow>
             if C ! j ! i then (C[j := xor_vectors (C ! j) (C ! i)], T[j := (T ! i \<noteq> T ! j)])
             else (C, T))
       [i + 1..<rows] CT"

definition gauss_column ::
  "nat \<Rightarrow> nat \<Rightarrow> bool list list \<times> bool list \<Rightarrow> bool list list \<times> bool list" where
  "gauss_column rows i CT =
     (case CT of (C, T) \<Rightarrow>
        gauss_eliminate_below rows i
          (case find (\<lambda>j. C ! j ! i) [i..<rows] of
             Some j \<Rightarrow> (swap_rows j i C, swap_rows j i T)
           | None \<Rightarrow> (C, T)))"

definition gaussianEliminate :: "nat \<Rightarrow> solver \<Rightarrow> solver" where
  "gaussianEliminate Width s =
     (case fold (gauss_column (independent_rows s)) [0..<Width] (contents s, targets s) of
        (C, T) \<Rightarrow> s\<lparr>contents := C, targets := T\<rparr>)"

text \<open>
  \<^verbatim>\<open>backwardSubstitute\<close>. The local array \<^verbatim>\<open>result\<close> is not initialised in the
  source; \<open>result0\<close> stands for its initial content. The loop runs \<open>index\<close> from
  \<^verbatim>\<open>independent_rows - 1\<close> down to 0.
\<close>

definition backwardSubstitute_from :: "bool list \<Rightarrow> solver \<Rightarrow> bool list" where
  "backwardSubstitute_from result0 s =
     fold (\<lambda>index result.
             let sub_result =
                   fold (\<lambda>i sub_result. sub_result \<noteq> (result ! i \<and> contents s ! index ! i))
                     [index + 1..<independent_rows s] False
             in result[index := (sub_result \<noteq> targets s ! index)])
       (rev [0..<independent_rows s]) result0"

definition backwardSubstitute :: "nat \<Rightarrow> solver \<Rightarrow> bool list" where
  "backwardSubstitute Width s = backwardSubstitute_from (replicate Width False) s"

text \<open>\<^verbatim>\<open>solve\<close> returns the solution and leaves the solver eliminated in place.\<close>

definition solve :: "nat \<Rightarrow> solver \<Rightarrow> error + bool list \<times> solver" where
  "solve Width s =
     (if independent_rows s \<noteq> Width then Inl Could_not_solve
      else let s' = gaussianEliminate Width s in Inr (backwardSubstitute Width s', s'))"

definition solveEncoded :: "nat \<Rightarrow> solver \<Rightarrow> error + size_t \<times> solver" where
  "solveEncoded Width s =
     (case solve Width s of
        Inl e \<Rightarrow> Inl e
      | Inr (solution, s') \<Rightarrow>
          Inr (fold (\<lambda>i result. result OR int_shl (of_bool (solution ! i)) (i + 1))
                 [0..<length solution] 1, s'))"

section \<open>Distinguisher (main.cpp)\<close>

text \<open>
  \<^verbatim>\<open>run_feistel_detect\<close>. The three lines it can print are the verdicts. The values
  measured by \<^verbatim>\<open>run_simon\<close> (the first register) come from outside: they are the list
  \<open>js\<close>, consumed one per iteration, and \<open>None\<close> says that the loop asks for a sample
  when the list is used up, so it has not ended yet. \<open>u\<close> is the random string drawn for the
  check. In the handler \<^verbatim>\<open>--i\<close> is followed by the loop's \<^verbatim>\<open>++i\<close>, on a \<^verbatim>\<open>size_t\<close>.
\<close>

datatype verdict = Feistel_solved | Random_permutation | Feistel_budget

fun detect_loop ::
  "nat \<Rightarrow> (size_t \<Rightarrow> size_t) \<Rightarrow> size_t \<Rightarrow> size_t \<Rightarrow> solver \<Rightarrow> size_t list \<Rightarrow> verdict option" where
  "detect_loop Bits function u i solver [] =
     (if i < of_nat (2 * Bits) then None else Some Feistel_budget)"
| "detect_loop Bits function u i solver (j # js) =
     (if i < of_nat (2 * Bits) then
        (case addRow_encoded Bits j solver of
           Inl (e, solver') \<Rightarrow> detect_loop Bits function u ((i - 1) + 1) solver' js
         | Inr solver' \<Rightarrow>
             if getIndependent solver' = Bits then
               (case solveEncoded Bits solver' of
                  Inl e \<Rightarrow> detect_loop Bits function u ((i - 1) + 1) solver' js
                | Inr (s, solver'') \<Rightarrow>
                    let f_u = function u; f_u_s = function (u XOR s)
                    in if f_u = f_u_s then Some Feistel_solved else Some Random_permutation)
             else detect_loop Bits function u (i + 1) solver' js)
      else Some Feistel_budget)"

definition run_feistel_detect ::
  "nat \<Rightarrow> (size_t \<Rightarrow> size_t) \<Rightarrow> size_t \<Rightarrow> size_t \<Rightarrow> size_t \<Rightarrow> size_t list \<Rightarrow> verdict option" where
  "run_feistel_detect Bits internal_callback ALPHA BETA u js =
     detect_loop Bits (\<lambda>input. run_f Bits input internal_callback ALPHA BETA) u 0 MatrixSolver js"

section \<open>Linear algebra over GF(2), for the statements\<close>

text \<open>\<open>xor_sum n f\<close> is \<open>f 0 \<oplus> \<dots> \<oplus> f (n - 1)\<close>; \<open>dot\<close> is the dot product modulo 2.\<close>

primrec xor_sum :: "nat \<Rightarrow> (nat \<Rightarrow> bool) \<Rightarrow> bool" where
  "xor_sum 0 f = False"
| "xor_sum (Suc n) f = (xor_sum n f \<noteq> f n)"

definition dot :: "bool list \<Rightarrow> bool list \<Rightarrow> bool" where
  "dot a x = xor_sum (length a) (\<lambda>i. a ! i \<and> x ! i)"

text \<open>\<open>comb W sel rows\<close>: the sum of the rows selected by \<open>sel\<close>, as a vector of width \<open>W\<close>.\<close>

definition comb :: "nat \<Rightarrow> bool list \<Rightarrow> bool list list \<Rightarrow> bool list" where
  "comb W sel rows = map (\<lambda>c. xor_sum (length rows) (\<lambda>i. sel ! i \<and> rows ! i ! c)) [0..<W]"

text \<open>All selections of \<open>n\<close> rows.\<close>

primrec all_sels :: "nat \<Rightarrow> bool list list" where
  "all_sels 0 = [[]]"
| "all_sels (Suc n) = map (\<lambda>s. False # s) (all_sels n) @ map (\<lambda>s. True # s) (all_sels n)"

text \<open>Linear independence: only the empty selection sums to zero.\<close>

definition lin_indep :: "nat \<Rightarrow> bool list list \<Rightarrow> bool" where
  "lin_indep W rows \<longleftrightarrow>
     (\<forall>sel\<in>set (all_sels (length rows)).
        comb W sel rows = replicate W False \<longrightarrow> sel = replicate (length rows) False)"

text \<open>
  \<open>contradicts W rows tgts row t\<close>: \<open>row\<close> is a sum of some of \<open>rows\<close>, and the sum of the
  targets of those rows is not \<open>t\<close>.
\<close>

definition contradicts :: "nat \<Rightarrow> bool list list \<Rightarrow> bool list \<Rightarrow> bool list \<Rightarrow> bool \<Rightarrow> bool" where
  "contradicts W rows tgts row t \<longleftrightarrow>
     (\<exists>sel\<in>set (all_sels (length rows)). comb W sel rows = row \<and> dot sel tgts \<noteq> t)"

definition in_span :: "nat \<Rightarrow> bool list list \<Rightarrow> bool list \<Rightarrow> bool" where
  "in_span W rows row \<longleftrightarrow> (\<exists>sel\<in>set (all_sels (length rows)). comb W sel rows = row)"

text \<open>The shape every solver built by the class has.\<close>

definition wf_solver :: "nat \<Rightarrow> solver \<Rightarrow> bool" where
  "wf_solver Width s \<longleftrightarrow>
     length (contents s) = length (targets s) \<and>
     independent_rows s \<le> length (contents s) \<and>
     list_all (\<lambda>r. length r = Width) (contents s)"

definition prefix_rows :: "solver \<Rightarrow> bool list list" where
  "prefix_rows s = take (independent_rows s) (contents s)"

definition prefix_targets :: "solver \<Rightarrow> bool list" where
  "prefix_targets s = take (independent_rows s) (targets s)"

text \<open>The solver after a call of \<^verbatim>\<open>addRow\<close>, whether it returned or threw.\<close>

definition after_addRow :: "nat \<Rightarrow> bool list \<times> bool \<Rightarrow> solver \<Rightarrow> solver" where
  "after_addRow Width eq s =
     (case addRow Width (fst eq) (snd eq) s of Inl (e, s') \<Rightarrow> s' | Inr s' \<Rightarrow> s')"

text \<open>The solvers seen after each call of a sequence of calls.\<close>

primrec trace :: "nat \<Rightarrow> solver \<Rightarrow> (bool list \<times> bool) list \<Rightarrow> solver list" where
  "trace Width s [] = []"
| "trace Width s (eq # eqs) = after_addRow Width eq s # trace Width (after_addRow Width eq s) eqs"

text \<open>Adding a list of equations, stopping at the first error.\<close>

primrec add_rows :: "nat \<Rightarrow> solver \<Rightarrow> (bool list \<times> bool) list \<Rightarrow> error \<times> solver + solver" where
  "add_rows Width s [] = Inr s"
| "add_rows Width s (eq # eqs) =
     (case addRow Width (fst eq) (snd eq) s of
        Inl e \<Rightarrow> Inl e
      | Inr s' \<Rightarrow> add_rows Width s' eqs)"

text \<open>
  For a list of samples fed to \<^verbatim>\<open>addRow\<close> in order: how many of them it rejects with
  an error, and the solver at the end.
\<close>

primrec rejected :: "nat \<Rightarrow> solver \<Rightarrow> size_t list \<Rightarrow> nat" where
  "rejected Width s [] = 0"
| "rejected Width s (j # js) =
     (case addRow_encoded Width j s of
        Inl (e, s') \<Rightarrow> Suc (rejected Width s' js)
      | Inr s' \<Rightarrow> rejected Width s' js)"

primrec feed :: "nat \<Rightarrow> solver \<Rightarrow> size_t list \<Rightarrow> solver" where
  "feed Width s [] = s"
| "feed Width s (j # js) =
     (case addRow_encoded Width j s of
        Inl (e, s') \<Rightarrow> feed Width s' js
      | Inr s' \<Rightarrow> feed Width s' js)"

section \<open>Auxiliary notions for the proofs about the solver\<close>

text \<open>The shape of the matrix that \<^verbatim>\<open>gaussianEliminate\<close> works on: \<open>n\<close> rows in use, rows of width \<open>W\<close>, one target per row.\<close>

definition mat_ok :: "nat \<Rightarrow> nat \<Rightarrow> bool list list \<Rightarrow> bool list \<Rightarrow> bool" where
  "mat_ok W n C T \<longleftrightarrow> n \<le> length C \<and> length T = length C \<and> (\<forall>r<length C. length (C ! r) = W)"

text \<open>Columns before \<open>i\<close> are zero below the diagonal, in the first \<open>n\<close> rows.\<close>

definition below_zero :: "nat \<Rightarrow> nat \<Rightarrow> bool list list \<Rightarrow> bool" where
  "below_zero i n C \<longleftrightarrow> (\<forall>c<i. \<forall>j. c < j \<and> j < n \<longrightarrow> \<not> C ! j ! c)"

text \<open>The row operation of both eliminations: row \<open>k\<close> becomes its sum with row \<open>p\<close>.\<close>

definition xor_row :: "nat \<Rightarrow> nat \<Rightarrow> bool list list \<Rightarrow> bool list list" where
  "xor_row k p M = M[k := xor_vectors (M ! k) (M ! p)]"

text \<open>All rows have width \<open>W\<close>.\<close>

definition rows_ok :: "nat \<Rightarrow> bool list list \<Rightarrow> bool" where
  "rows_ok W M \<longleftrightarrow> (\<forall>r<length M. length (M ! r) = W)"

text \<open>The rows are independent on their first \<open>V\<close> columns.\<close>

definition li :: "nat \<Rightarrow> bool list list \<Rightarrow> bool" where
  "li V M \<longleftrightarrow> lin_indep V (map (take V) M)"

text \<open>The column of the first set entry of a row (its length if there is none).\<close>

definition lead :: "bool list \<Rightarrow> nat" where
  "lead r = length (takeWhile (\<lambda>b. \<not> b) r)"

text \<open>Echelon form after the columns before \<open>j\<close>: the first \<open>off\<close> rows have their leading entries in increasing columns before \<open>j\<close>, the other rows are zero before \<open>j\<close>.\<close>

definition echelon :: "nat \<Rightarrow> nat \<Rightarrow> nat \<Rightarrow> bool list list \<Rightarrow> bool" where
  "echelon n j off M \<longleftrightarrow>
     (\<forall>i<off. lead (M ! i) < j) \<and>
     (\<forall>i i'. i < i' \<and> i' < off \<longrightarrow> lead (M ! i) < lead (M ! i')) \<and>
     (\<forall>k. off \<le> k \<and> k < n \<longrightarrow> j \<le> lead (M ! k))"

text \<open>The matrix that \<^verbatim>\<open>independent\<close> eliminates, from the independent rows \<open>P\<close>, their targets and the candidate equation.\<close>

definition snapshot :: "bool list list \<Rightarrow> bool list \<Rightarrow> bool list \<Rightarrow> bool \<Rightarrow> bool list list" where
  "snapshot P Tp r t = map (\<lambda>i. P ! i @ [Tp ! i]) [0..<length P] @ [r @ [t]]"

text \<open>The solver with the new equation appended, and with the new equation swapped into the independent rows.\<close>

definition pushed :: "bool list \<Rightarrow> bool \<Rightarrow> solver \<Rightarrow> solver" where
  "pushed row t s = s\<lparr>contents := contents s @ [row], targets := targets s @ [t]\<rparr>"

definition accepted :: "bool list \<Rightarrow> bool \<Rightarrow> solver \<Rightarrow> solver" where
  "accepted row t s =
     s\<lparr>contents := swap_rows (independent_rows s) (length (contents s)) (contents s @ [row]),
       targets := swap_rows (independent_rows s) (length (contents s)) (targets s @ [t]),
       independent_rows := independent_rows s + 1\<rparr>"

text \<open>The invariant of the solver: its shape, and the independence of its independent rows.\<close>

definition solver_inv :: "nat \<Rightarrow> solver \<Rightarrow> bool" where
  "solver_inv W s \<longleftrightarrow> wf_solver W s \<and> lin_indep W (prefix_rows s)"

text \<open>\<open>x\<close> satisfies every equation of the system.\<close>

definition solves :: "bool list list \<Rightarrow> bool list \<Rightarrow> bool list \<Rightarrow> bool" where
  "solves C T x \<longleftrightarrow> (\<forall>i<length C. dot (C ! i) x = T ! i)"

text \<open>The diagonal is set in the columns before \<open>i\<close>.\<close>

definition unit_diag :: "nat \<Rightarrow> bool list list \<Rightarrow> bool" where
  "unit_diag i C \<longleftrightarrow> (\<forall>c<i. C ! c ! c)"

text \<open>One iteration of the loop of \<^verbatim>\<open>backwardSubstitute\<close>, and what holds of \<open>result\<close> for the indices from \<open>m\<close> on.\<close>

definition back_step :: "solver \<Rightarrow> nat \<Rightarrow> bool list \<Rightarrow> bool list" where
  "back_step s index result =
     (let sub_result =
            fold (\<lambda>i sub_result. sub_result \<noteq> (result ! i \<and> contents s ! index ! i))
              [index + 1..<independent_rows s] False
      in result[index := (sub_result \<noteq> targets s ! index)])"

definition back_solved :: "solver \<Rightarrow> nat \<Rightarrow> bool list \<Rightarrow> bool" where
  "back_solved s m r \<longleftrightarrow>
     length r = independent_rows s \<and>
     (\<forall>idx. m \<le> idx \<and> idx < independent_rows s \<longrightarrow>
        r ! idx = (xor_sum (independent_rows s) (\<lambda>i. idx < i \<and> r ! i \<and> contents s ! idx ! i) \<noteq> targets s ! idx))"




section \<open>The Feistel network and the probe function\<close>

lemma r_mask_eq: "r_mask Bits = mask Bits"
  by (simp add: r_mask_def mask_eq_exp_minus_1 push_bit_eq_mult)

lemma bit_in_range: "take_bit n (x::size_t) = x \<Longrightarrow> bit x k \<Longrightarrow> k < n"
  by (metis bit_take_bit_iff)

lemma in_range_iff: "unat (x::size_t) < 2 ^ n \<longleftrightarrow> take_bit n x = x"
  by (metis take_bit_nat_eq_self_iff unsigned_take_bit_eq word_eq_iff_unsigned)

lemma low_half:
  "take_bit Bits r = r \<Longrightarrow> (r OR push_bit Bits (l::size_t)) AND r_mask Bits = r"
  unfolding r_mask_eq
  by (rule bit_word_eqI) (auto simp: bit_simps dest: bit_in_range)

lemma high_half:
  "2 * Bits \<le> 64 \<Longrightarrow> take_bit Bits r = r \<Longrightarrow> take_bit Bits l = l \<Longrightarrow>
     drop_bit Bits ((r OR push_bit Bits (l::size_t)) AND l_mask Bits) = l"
  unfolding l_mask_def r_mask_eq
  by (rule bit_word_eqI) (auto simp: bit_simps dest: bit_in_range)

lemma join_halves:
  "take_bit (2 * Bits) x = x \<Longrightarrow>
     (x AND r_mask Bits) OR push_bit Bits (drop_bit Bits ((x::size_t) AND l_mask Bits)) = x"
  unfolding l_mask_def r_mask_eq
  by (rule bit_word_eqI) (auto simp: bit_simps dest: bit_in_range)

lemma split_low_range: "take_bit Bits ((x::size_t) AND r_mask Bits) = x AND r_mask Bits"
  unfolding r_mask_eq
  by (rule bit_word_eqI) (auto simp: bit_simps)

lemma split_high_range:
  "take_bit Bits (drop_bit Bits ((x::size_t) AND l_mask Bits)) = drop_bit Bits (x AND l_mask Bits)"
  unfolding l_mask_def r_mask_eq
  by (rule bit_word_eqI) (auto simp: bit_simps)

text \<open>Index loops as folds over the key list.\<close>

lemma fold_index: "fold (\<lambda>i. g (xs ! i)) [0..<length xs] s = fold g xs s"
proof (induction xs arbitrary: s rule: rev_induct)
  case Nil
  show ?case by simp
next
  case (snoc x xs)
  have "fold (\<lambda>i. g ((xs @ [x]) ! i)) [0..<length xs] s = fold (\<lambda>i. g (xs ! i)) [0..<length xs] s"
    by (rule fold_cong) (auto simp: nth_append)
  then show ?case using snoc.IH by simp
qed

lemma fold_index_rev:
  "fold (\<lambda>i. g (xs ! (length xs - 1 - i))) [0..<length xs] s = fold g (rev xs) s"
proof -
  have "fold (\<lambda>i. g (xs ! (length xs - 1 - i))) [0..<length xs] s
      = fold (\<lambda>i. g (rev xs ! i)) [0..<length (rev xs)] s"
    by (rule fold_cong) (auto simp: rev_nth)
  then show ?thesis by (simp only: fold_index)
qed

lemma encrypt_loop: "fold (encrypt_round f keys) [0..<length keys] lr = fold (enc_step f) keys lr"
proof -
  have "encrypt_round f keys = (\<lambda>i. enc_step f (keys ! i))"
    by (auto simp: encrypt_round_def enc_step_def fun_eq_iff)
  then show ?thesis by (simp only: fold_index)
qed

lemma decrypt_loop: "fold (decrypt_round f keys) [0..<length keys] lr = fold (dec_step f) (rev keys) lr"
proof -
  have "decrypt_round f keys = (\<lambda>i. dec_step f (keys ! (length keys - 1 - i)))"
    by (auto simp: decrypt_round_def dec_step_def fun_eq_iff)
  then show ?thesis by (simp only: fold_index_rev)
qed

lemma dec_enc_step: "dec_step f k (enc_step f k lr) = lr"
  by (cases lr) (simp add: dec_step_def enc_step_def xor.assoc)

lemma dec_enc_fold: "fold (dec_step f) (rev keys) (fold (enc_step f) keys lr) = lr"
  by (induction keys arbitrary: lr) (simp_all add: dec_enc_step)

lemma half_xor: "half Bits x \<Longrightarrow> half Bits y \<Longrightarrow> half Bits (x XOR y)"
  by (simp add: half_def)

lemma enc_fold_range:
  "\<forall>k\<in>set keys. \<forall>a. half Bits a \<longrightarrow> half Bits (f a k) \<Longrightarrow> half Bits (fst lr) \<Longrightarrow> half Bits (snd lr) \<Longrightarrow>
     half Bits (fst (fold (enc_step f) keys lr)) \<and> half Bits (snd (fold (enc_step f) keys lr))"
  by (induction keys arbitrary: lr) (simp_all add: enc_step_def half_xor)

text \<open>
  C2 (amended). For a block that fits \<open>2 * Bits\<close> bits and a round function whose results
  fit \<open>Bits\<close> bits on the keys used, decrypting the encryption gives the block back, for a
  key list of any length. \<open>2 * Bits \<le> 64\<close>: the block fits a \<^verbatim>\<open>size_t\<close>.
\<close>

theorem feistel_roundtrip:
  assumes B: "2 * Bits \<le> 64"
    and x: "unat x < 2 ^ (2 * Bits)"
    and f: "\<forall>k\<in>set keys. \<forall>a. unat a < 2 ^ Bits \<longrightarrow> unat (f a k) < 2 ^ Bits"
  shows "run_feistel_decrypt Bits (run_feistel_encrypt Bits x f keys) f keys = x"
proof -
  define l r where "l = drop_bit Bits (x AND l_mask Bits)" and "r = x AND r_mask Bits"
  obtain l' r' where lr': "fold (enc_step f) keys (l, r) = (l', r')" by (cases "fold (enc_step f) keys (l, r)")
  have hl: "half Bits l" and hr: "half Bits r"
    unfolding half_def l_def r_def by (rule split_high_range, rule split_low_range)
  from f have f': "\<forall>k\<in>set keys. \<forall>a. half Bits a \<longrightarrow> half Bits (f a k)"
    by (simp add: half_def in_range_iff)
  from enc_fold_range [OF f', of "(l, r)"] hl hr lr'
  have "half Bits l'" "half Bits r'" by simp_all
  then have tl: "take_bit Bits l' = l'" and tr: "take_bit Bits r' = r'" by (simp_all add: half_def)
  have enc: "run_feistel_encrypt Bits x f keys = r' OR push_bit Bits l'"
    using lr' by (simp add: run_feistel_encrypt_def encrypt_loop l_def r_def)
  have undo: "fold (dec_step f) (rev keys) (l', r') = (l, r)"
    using dec_enc_fold [of f keys "(l, r)"] lr' by simp
  have "run_feistel_decrypt Bits (r' OR push_bit Bits l') f keys = r OR push_bit Bits l"
    unfolding run_feistel_decrypt_def Let_def decrypt_loop low_half [OF tr] high_half [OF B tr tl] undo
    by simp
  also have "\<dots> = x"
    unfolding l_def r_def using x by (intro join_halves) (simp add: in_range_iff)
  finally show ?thesis by (simp add: enc)
qed

lemma probe_high:
  "2 * Bits \<le> 64 \<Longrightarrow> take_bit Bits r = r \<Longrightarrow> take_bit Bits l = l \<Longrightarrow>
     drop_bit Bits (r OR push_bit Bits (l::size_t)) AND (push_bit Bits 1 - 1) = l"
  unfolding r_mask_def [symmetric] r_mask_eq
  by (rule bit_word_eqI) (auto simp: bit_simps dest: bit_in_range)

lemma probe_input_low:
  "take_bit Bits m = m \<Longrightarrow> (push_bit Bits (a::size_t) OR m) AND r_mask Bits = m"
  using low_half [of Bits m a] by (simp add: or.commute)

lemma probe_input_high:
  "2 * Bits \<le> 64 \<Longrightarrow> take_bit Bits m = m \<Longrightarrow> take_bit Bits a = a \<Longrightarrow>
     drop_bit Bits ((push_bit Bits (a::size_t) OR m) AND l_mask Bits) = a"
  using high_half [of Bits m a] by (simp only: or.commute)

lemma selector_part: "take_bit (Suc Bits) (u::size_t) = u \<Longrightarrow> take_bit Bits (drop_bit 1 u) = drop_bit 1 u"
  by (rule bit_word_eqI) (auto simp: bit_simps dest: bit_in_range)

lemma run_f_feistel3:
  assumes B: "2 * Bits \<le> 64"
    and f: "\<forall>k\<in>set [k1, k2, k3]. \<forall>a. half Bits a \<longrightarrow> half Bits (f a k)"
    and m: "half Bits alpha" "half Bits beta"
    and u: "take_bit (Suc Bits) u = u"
  shows "run_f Bits u (\<lambda>x. run_feistel_encrypt Bits x f [k1, k2, k3]) alpha beta
       = f (drop_bit 1 u XOR f (if u AND 1 \<noteq> 0 then beta else alpha) k1) k2"
proof -
  define a where "a = drop_bit 1 u"
  define mk where "mk = (if u AND 1 \<noteq> 0 then beta else alpha)"
  have ha: "half Bits a" unfolding a_def half_def using u by (rule selector_part)
  have hm: "half Bits mk" using m by (simp add: mk_def)
  define r1 where "r1 = a XOR f mk k1"
  define r2 where "r2 = mk XOR f r1 k2"
  define r3 where "r3 = r1 XOR f r2 k3"
  have h1: "half Bits r1" using f ha hm by (simp add: r1_def half_xor)
  have h2: "half Bits r2" using f h1 hm by (simp add: r2_def half_xor)
  have h3: "half Bits r3" using f h1 h2 by (simp add: r3_def half_xor)
  have lo: "(push_bit Bits a OR mk) AND r_mask Bits = mk"
    using hm by (simp add: probe_input_low half_def)
  have hi: "drop_bit Bits ((push_bit Bits a OR mk) AND l_mask Bits) = a"
    using B hm ha by (simp only: probe_input_high half_def)
  have enc: "run_feistel_encrypt Bits (push_bit Bits a OR mk) f [k1, k2, k3] = r3 OR push_bit Bits r2"
    unfolding run_feistel_encrypt_def Let_def encrypt_loop lo hi
    by (simp add: enc_step_def r1_def r2_def r3_def)
  have "run_f Bits u (\<lambda>x. run_feistel_encrypt Bits x f [k1, k2, k3]) alpha beta
      = (drop_bit Bits (r3 OR push_bit Bits r2) AND (push_bit Bits 1 - 1)) XOR mk"
    unfolding run_f_def Let_def a_def [symmetric] mk_def [symmetric] enc ..
  also have "\<dots> = r2 XOR mk"
    using B h2 h3 by (simp only: probe_high half_def)
  also have "\<dots> = f r1 k2"
    by (simp add: r2_def xor.commute xor.left_commute)
  finally show ?thesis by (simp add: r1_def a_def mk_def)
qed

lemma bit_dbl: "bit ((d::size_t) * 2) n \<longleftrightarrow> 0 < n \<and> n < 64 \<and> bit d (n - 1)"
  by (subst mult.commute) (auto simp: bit_double_iff)

lemma period_in_range:
  "take_bit Bits (d::size_t) = d \<Longrightarrow> take_bit (Suc Bits) (push_bit 1 d OR 1) = push_bit 1 d OR 1"
  by (rule bit_word_eqI) (auto simp: bit_simps bit_dbl dest: bit_in_range)

lemma period_nonzero: "push_bit 1 (d::size_t) OR 1 \<noteq> 0"
proof
  assume "push_bit 1 d OR 1 = 0"
  then have "bit (push_bit 1 d OR 1) 0 = bit (0::size_t) 0" by simp
  then show False by (simp add: bit_simps)
qed

lemma period_high:
  "Bits < 64 \<Longrightarrow> take_bit Bits d = d \<Longrightarrow>
     drop_bit 1 (u XOR (push_bit 1 (d::size_t) OR 1)) = drop_bit 1 u XOR d"
  by (rule bit_word_eqI) (auto simp: bit_simps bit_dbl dest: bit_in_range)

lemma period_low: "(u XOR (push_bit 1 (d::size_t) OR 1)) AND 1 \<noteq> 0 \<longleftrightarrow> \<not> (u AND 1 \<noteq> 0)"
  by (simp add: and_one_eq mod_2_eq_odd bit_simps even_xor_iff even_or_iff)

lemma roundtrip_input_too_wide: "run_feistel_decrypt 4 (run_feistel_encrypt 4 256 classic_round_function [1, 2, 3]) classic_round_function [1, 2, 3] = 0"
  by (simp add: run_feistel_decrypt_def run_feistel_encrypt_def encrypt_round_def decrypt_round_def
      r_mask_def l_mask_def classic_round_function_def upt_rec)

lemma roundtrip_round_too_wide: "run_feistel_decrypt 4 (run_feistel_encrypt 4 0 (\<lambda>a k. 16) [1]) (\<lambda>a k. 16) [1] = 257"
  by (simp add: run_feistel_decrypt_def run_feistel_encrypt_def encrypt_round_def decrypt_round_def
      r_mask_def l_mask_def upt_rec)

lemma classic_round_function_fits: "take_bit 4 k = k \<Longrightarrow> take_bit 4 (classic_round_function a k) = classic_round_function a k"
proof -
  have three: "(3::size_t) = mask 2" by (simp add: mask_eq_exp_minus_1)
  assume "take_bit 4 k = k"
  then show ?thesis
    unfolding classic_round_function_def Let_def three
    by (intro bit_word_eqI) (auto simp: bit_simps dest: bit_in_range)
qed

lemma below_four_cases: 
  assumes "unat (s::size_t) < 4" shows "s = 0 \<or> s = 1 \<or> s = 2 \<or> s = 3"
proof -
  have e: "word_of_nat (unat s) = s" by simp
  consider "unat s = 0" | "unat s = 1" | "unat s = 2" | "unat s = 3" using assms by arith
  then show ?thesis
  proof cases
    case 1 with e show ?thesis by simp
  next
    case 2 with e show ?thesis by simp
  next
    case 3 with e show ?thesis by simp
  next
    case 4 with e show ?thesis by simp
  qed
qed

lemma xor_cancel_right: "(a XOR (p XOR q)) XOR q = a XOR (p::size_t)"
  by (simp add: xor.assoc)

lemma xor_cancel_left: "(a XOR (p XOR q)) XOR p = a XOR (q::size_t)"
  using xor_cancel_right [of a q p] by (simp add: xor.commute)

text \<open>
  C1 (amended). For a 3-round Feistel oracle whose round function has results that fit
  \<open>Bits\<close> bits, and masks \<open>alpha\<close>, \<open>beta\<close> below \<open>2 ^ Bits\<close>, the probe function has a
  period \<open>s\<close> in its own domain: \<open>s\<close> is not zero, is below \<open>2 ^ (Bits + 1)\<close>, and
  \<open>run_f u = run_f (u XOR s)\<close> for every \<open>u\<close> below \<open>2 ^ (Bits + 1)\<close>.
\<close>

theorem probe_hidden_period:
  assumes B: "2 * Bits \<le> 64"
    and K: "length keys = 3"
    and f: "\<forall>k\<in>set keys. \<forall>a. unat a < 2 ^ Bits \<longrightarrow> unat (f a k) < 2 ^ Bits"
    and al: "unat alpha < 2 ^ Bits" and be: "unat beta < 2 ^ Bits"
  shows "\<exists>s. s \<noteq> 0 \<and> unat s < 2 ^ (Bits + 1) \<and>
           (\<forall>u. unat u < 2 ^ (Bits + 1) \<longrightarrow>
              run_f Bits u (\<lambda>x. run_feistel_encrypt Bits x f keys) alpha beta
            = run_f Bits (u XOR s) (\<lambda>x. run_feistel_encrypt Bits x f keys) alpha beta)"
proof -
  from K obtain k1 k2 k3 where keys: "keys = [k1, k2, k3]"
    by (cases keys; cases "tl keys"; cases "tl (tl keys)") auto
  have f': "\<forall>k\<in>set [k1, k2, k3]. \<forall>a. half Bits a \<longrightarrow> half Bits (f a k)"
    using f by (simp add: half_def in_range_iff keys)
  have ha: "half Bits alpha" and hb: "half Bits beta"
    using al be by (simp_all add: half_def in_range_iff)
  define d where "d = f alpha k1 XOR f beta k1"
  define s where "s = push_bit 1 d OR 1"
  have hd: "take_bit Bits d = d"
    using f' ha hb half_xor [of Bits "f alpha k1" "f beta k1"] by (simp add: d_def half_def)
  have B': "Bits < 64" using B by simp
  have s0: "s \<noteq> 0" unfolding s_def by (rule period_nonzero)
  have sr: "unat s < 2 ^ (Bits + 1)"
    using period_in_range [OF hd] in_range_iff [of s "Suc Bits"] by (simp add: s_def)
  have eq: "run_f Bits u (\<lambda>x. run_feistel_encrypt Bits x f keys) alpha beta
          = run_f Bits (u XOR s) (\<lambda>x. run_feistel_encrypt Bits x f keys) alpha beta"
    if u: "unat u < 2 ^ (Bits + 1)" for u
  proof -
    have tu: "take_bit (Suc Bits) u = u" using u in_range_iff [of u "Suc Bits"] by simp
    have ts: "take_bit (Suc Bits) s = s" using sr in_range_iff [of s "Suc Bits"] by simp
    have tus: "take_bit (Suc Bits) (u XOR s) = u XOR s" using tu ts by simp
    have hi: "drop_bit 1 (u XOR s) = drop_bit 1 u XOR d"
      unfolding s_def using B' hd by (rule period_high)
    have lo: "(u XOR s) AND 1 \<noteq> 0 \<longleftrightarrow> \<not> (u AND 1 \<noteq> 0)"
      unfolding s_def by (rule period_low)
    show ?thesis
      unfolding keys run_f_feistel3 [OF B f' ha hb tu] run_f_feistel3 [OF B f' ha hb tus] hi
      using lo by (cases "u AND 1 \<noteq> 0") (simp_all add: d_def xor_cancel_left xor_cancel_right)
  qed
  from s0 sr eq show ?thesis by blast
qed

lemma classic_round_function_range:
  "\<forall>k\<in>set [1, 2, 3]. \<forall>a. unat a < 2 ^ 4 \<longrightarrow> unat (classic_round_function a k) < 2 ^ 4"
proof -
  have "take_bit 4 k = k" if "k \<in> set [1, 2, 3]" for k :: size_t
    using that by auto
  then show ?thesis
    using classic_round_function_fits by (simp only: in_range_iff) blast
qed

theorem feistel_roundtrip_witness:
  "unat (200 :: size_t) < 2 ^ (2 * 4) \<and>
   run_feistel_decrypt 4 (run_feistel_encrypt 4 200 classic_round_function [1, 2, 3]) classic_round_function [1, 2, 3] = 200"
proof -
  have x: "unat (200 :: size_t) < 2 ^ (2 * 4)" by simp
  have B: "2 * 4 \<le> (64::nat)" by simp
  show ?thesis
    using x feistel_roundtrip [OF B x classic_round_function_range] by simp
qed

text \<open>
  C2 as stated fails on an input beyond \<open>2 * Bits\<close> bits (256 with \<open>Bits = 4\<close> and the
  round function and keys of the test in main.cpp) and on a round function whose result does
  not fit \<open>Bits\<close> bits (the constant 16 with \<open>Bits = 4\<close>, input 0).
\<close>

theorem feistel_roundtrip_counterexample:
  "run_feistel_decrypt 4 (run_feistel_encrypt 4 256 classic_round_function [1, 2, 3]) classic_round_function [1, 2, 3] \<noteq> 256
   \<and> run_feistel_decrypt 4 (run_feistel_encrypt 4 0 (\<lambda>a k. 16) [1]) (\<lambda>a k. 16) [1] \<noteq> 0"
  by (simp add: roundtrip_input_too_wide roundtrip_round_too_wide)

theorem probe_hidden_period_witness:
  "\<exists>s::size_t. s \<noteq> 0 \<and> unat s < 2 ^ (4 + 1) \<and>
     (\<forall>u. unat u < 2 ^ (4 + 1) \<longrightarrow>
        run_f 4 u (\<lambda>x. run_feistel_encrypt 4 x classic_round_function [1, 2, 3]) 3 5
      = run_f 4 (u XOR s) (\<lambda>x. run_feistel_encrypt 4 x classic_round_function [1, 2, 3]) 3 5)"
proof -
  have B: "2 * 4 \<le> (64::nat)" by simp
  have K: "length [1, 2, 3 :: size_t] = 3" by simp
  have al: "unat (3 :: size_t) < 2 ^ 4" and be: "unat (5 :: size_t) < 2 ^ 4" by simp_all
  show ?thesis
    by (rule probe_hidden_period [OF B K classic_round_function_range al be])
qed

lemma wide_probe_values:
  "run_f 1 0 (\<lambda>x. run_feistel_encrypt 1 x wide_round_function [0, 2, 1]) 0 1 = 0"
  "run_f 1 1 (\<lambda>x. run_feistel_encrypt 1 x wide_round_function [0, 2, 1]) 0 1 = 0"
  "run_f 1 2 (\<lambda>x. run_feistel_encrypt 1 x wide_round_function [0, 2, 1]) 0 1 = 1"
  "run_f 1 3 (\<lambda>x. run_feistel_encrypt 1 x wide_round_function [0, 2, 1]) 0 1 = 0"
  by (simp_all add: run_f_def run_feistel_encrypt_def encrypt_round_def r_mask_def l_mask_def
      wide_round_function_def upt_rec)

text \<open>
  C1 as stated, for any round function: with \<open>Bits = 1\<close>, the round function that multiplies
  by the key, keys 0, 2, 1 and masks 0 and 1, the probe function takes the values 0, 0, 1, 0
  on its four inputs, and no string \<open>s\<close> of its domain other than 0 is a period.
\<close>

theorem probe_hidden_period_counterexample:
  "\<not> (\<exists>s::size_t. s \<noteq> 0 \<and> unat s < 2 ^ (1 + 1) \<and>
     (\<forall>u. unat u < 2 ^ (1 + 1) \<longrightarrow>
        run_f 1 u (\<lambda>x. run_feistel_encrypt 1 x wide_round_function [0, 2, 1]) 0 1
      = run_f 1 (u XOR s) (\<lambda>x. run_feistel_encrypt 1 x wide_round_function [0, 2, 1]) 0 1))"
proof
  assume "\<exists>s::size_t. s \<noteq> 0 \<and> unat s < 2 ^ (1 + 1) \<and>
     (\<forall>u. unat u < 2 ^ (1 + 1) \<longrightarrow>
        run_f 1 u (\<lambda>x. run_feistel_encrypt 1 x wide_round_function [0, 2, 1]) 0 1
      = run_f 1 (u XOR s) (\<lambda>x. run_feistel_encrypt 1 x wide_round_function [0, 2, 1]) 0 1)"
  then obtain s :: size_t where s0: "s \<noteq> 0" and sr: "unat s < 4"
    and per: "\<And>u. unat u < 4 \<Longrightarrow>
        run_f 1 u (\<lambda>x. run_feistel_encrypt 1 x wide_round_function [0, 2, 1]) 0 1
      = run_f 1 (u XOR s) (\<lambda>x. run_feistel_encrypt 1 x wide_round_function [0, 2, 1]) 0 1"
    by auto
  from below_four_cases [OF sr] s0 consider "s = 1" | "s = 2" | "s = 3" by blast
  then show False
  proof cases
    case 1
    with per [of 2] show False by (simp add: wide_probe_values del: One_nat_def)
  next
    case 2
    with per [of 2] show False by (simp add: wide_probe_values del: One_nat_def)
  next
    case 3
    with per [of 2] show False by (simp add: wide_probe_values del: One_nat_def)
  qed
qed

text \<open>
  The string \<open>s\<close> is taken in the domain of the probe function, as \<open>u\<close> is. A string with
  only bit \<open>Bits + 1\<close> set is a period of the probe of every oracle made by
  \<^verbatim>\<open>run_feistel_encrypt\<close>, whatever the rounds, since the oracle masks its input.
\<close>

lemma probe_period_outside_domain:
  assumes B: "2 * Bits \<le> 64"
  shows "run_f Bits (u XOR push_bit (Suc Bits) 1) (\<lambda>x. run_feistel_encrypt Bits x f keys) alpha beta
       = run_f Bits u (\<lambda>x. run_feistel_encrypt Bits x f keys) alpha beta"
proof -
  have b: "(u XOR push_bit (Suc Bits) 1) AND 1 = u AND (1::size_t)"
    by (rule bit_word_eqI) (auto simp: bit_simps)
  have lo: "(push_bit Bits (drop_bit 1 (u XOR push_bit (Suc Bits) 1)) OR m) AND r_mask Bits
          = (push_bit Bits (drop_bit 1 u) OR m) AND r_mask Bits" for m :: size_t
    unfolding r_mask_eq by (rule bit_word_eqI) (auto simp: bit_simps)
  have hi: "(push_bit Bits (drop_bit 1 (u XOR push_bit (Suc Bits) 1)) OR m) AND l_mask Bits
          = (push_bit Bits (drop_bit 1 u) OR m) AND l_mask Bits" for m :: size_t
    unfolding l_mask_def r_mask_eq using B by (intro bit_word_eqI) (auto simp: bit_simps)
  have "run_feistel_encrypt Bits (push_bit Bits (drop_bit 1 (u XOR push_bit (Suc Bits) 1)) OR m) f keys
      = run_feistel_encrypt Bits (push_bit Bits (drop_bit 1 u) OR m) f keys" for m
    unfolding run_feistel_encrypt_def lo hi ..
  then show ?thesis
    unfolding run_f_def Let_def b by simp
qed

section \<open>The solver on concrete equations\<close>

lemmas solver_eval = addRow_encoded_def addRow_def independent_def content_copy_def eliminate_column_def
      eliminate_below_def swap_rows_def xor_vectors_def zero_vector_def one_vector_def int_shl_def
      MatrixSolver_def getIndependent_def solve_def gaussianEliminate_def gauss_column_def
      gauss_eliminate_below_def backwardSubstitute_def backwardSubstitute_from_def upt_rec Let_def

lemma enc6: "addRow_encoded 3 6 MatrixSolver = Inr \<lparr>independent_rows = 1, contents = [[True, True, False]], targets = [False]\<rparr>"
  by (simp add: solver_eval)

lemma enc5: "addRow_encoded 3 5 \<lparr>independent_rows = 1, contents = [[True, True, False]], targets = [False]\<rparr>
   = Inr \<lparr>independent_rows = 2, contents = [[True, True, False], [False, True, False]], targets = [False, True]\<rparr>"
  by (simp add: solver_eval)

lemma enc9: "addRow_encoded 3 9 \<lparr>independent_rows = 2, contents = [[True, True, False], [False, True, False]], targets = [False, True]\<rparr>
   = Inr \<lparr>independent_rows = 3, contents = [[True, True, False], [False, True, False], [False, False, True]], targets = [False, True, True]\<rparr>"
  by (simp add: solver_eval)

lemma solve3: "solve 3 \<lparr>independent_rows = 3, contents = [[True, True, False], [False, True, False], [False, False, True]], targets = [False, True, True]\<rparr>
   = Inr ([True, True, True], \<lparr>independent_rows = 3, contents = [[True, True, False], [False, True, False], [False, False, True]], targets = [False, True, True]\<rparr>)"
  by (simp add: solver_eval numeral_3_eq_3)

lemma unique3:
  assumes "length y = 3" "dot [True, True, False] y = False" "dot [False, True, False] y = True"
    "dot [False, False, True] y = True"
  shows "y = [True, True, True]"
proof -
  from assms(1) obtain a b c where y: "y = [a, b, c]"
    by (cases y; cases "tl y"; cases "tl (tl y)") auto
  show ?thesis using assms(2-) unfolding y by (simp add: dot_def)
qed

text \<open>
  C9. With \<open>Width = 3\<close>, adding the encoded equations \<open>0b0110\<close>, \<open>0b0101\<close> and \<open>0b1001\<close>
  raises no error and brings the rank to 1, 2 and 3; the rows stored are 110, 010, 001 (entry
  \<open>i\<close> of a row is bit \<open>i + 1\<close> of the code) with targets 0, 1, 1, and \<^verbatim>\<open>solve\<close>
  returns 111, which satisfies the three equations and is the only vector of width 3 that does.
\<close>

theorem scenario_three_equations:
  "\<exists>s1 s2 s3 x s'.
     addRow_encoded 3 6 MatrixSolver = Inr s1 \<and> getIndependent s1 = 1 \<and>
     addRow_encoded 3 5 s1 = Inr s2 \<and> getIndependent s2 = 2 \<and>
     addRow_encoded 3 9 s2 = Inr s3 \<and> getIndependent s3 = 3 \<and>
     contents s3 = [[True, True, False], [False, True, False], [False, False, True]] \<and>
     targets s3 = [False, True, True] \<and>
     solve 3 s3 = Inr (x, s') \<and> x = [True, True, True] \<and>
     dot [True, True, False] x = False \<and> dot [False, True, False] x = True \<and>
     dot [False, False, True] x = True \<and>
     (\<forall>y. length y = 3 \<longrightarrow> dot [True, True, False] y = False \<longrightarrow> dot [False, True, False] y = True \<longrightarrow>
          dot [False, False, True] y = True \<longrightarrow> y = x)"
  apply (intro exI conjI)
               apply (rule enc6)
              prefer 2 apply (rule enc5)
             prefer 3 apply (rule enc9)
            prefer 6 apply (rule solve3)
  by (simp_all add: getIndependent_def dot_def unique3)

theorem scenario_three_equations_witness:
  "length [True, True, True] = 3 \<and> dot [True, True, False] [True, True, True] = False \<and>
   dot [False, True, False] [True, True, True] = True \<and>
   dot [False, False, True] [True, True, True] = True \<and>
   (\<exists>s3 s'. solve 3 s3 = Inr ([True, True, True], s'))"
  using scenario_three_equations by auto

section \<open>The encoded solution\<close>








section \<open>The detection loop\<close>

lemma budget_less: 
  assumes "2 * W < 2 ^ 64" shows "(i::size_t) < of_nat (2 * W) \<longleftrightarrow> unat i < 2 * W"
proof -
  have "unat (of_nat (2 * W) :: size_t) = 2 * W"
    by (rule of_nat_inverse [OF refl]) (use assms in simp)
  then show ?thesis by (simp only: word_less_nat_alt)
qed

lemma budget_less2:
  assumes "2 * W < 2 ^ 64" shows "(i::size_t) < 2 * word_of_nat W \<longleftrightarrow> unat i < 2 * W"
  using budget_less [OF assms, of i] by simp

lemma budget_incr:
  assumes "2 * W < 2 ^ 64" "unat (i::size_t) < 2 * W" shows "unat (i + 1) = unat i + 1"
proof -
  have "unat i + 1 < 2 ^ 64" using assms by simp
  then show ?thesis by (simp add: unat_word_ariths take_bit_nat_eq_self unat_of_nat)
qed

lemma independent_rows_addRow:
  "addRow Width row t s = Inl (e, s') \<Longrightarrow> independent_rows s' = independent_rows s"
  "addRow Width row t s = Inr s' \<Longrightarrow> independent_rows s \<le> independent_rows s'"
  by (auto simp: addRow_def Let_def split: sum.splits bool.splits)

lemma independent_rows_addRow_encoded:
  "addRow_encoded Width j s = Inl (e, s') \<Longrightarrow> independent_rows s' = independent_rows s"
  "addRow_encoded Width j s = Inr s' \<Longrightarrow> independent_rows s \<le> independent_rows s'"
  unfolding addRow_encoded_def Let_def by (erule independent_rows_addRow)+

lemma independent_rows_feed: "independent_rows s \<le> independent_rows (feed Width s js)"
proof (induction js arbitrary: s)
  case Nil
  show ?case by simp
next
  case (Cons j js)
  show ?case
  proof (cases "addRow_encoded Width j s")
    case (Inl es)
    obtain e s' where es: "es = (e, s')" by (cases es)
    with Inl independent_rows_addRow_encoded(1) [of Width j s e s'] Cons.IH [of s']
    show ?thesis by simp
  next
    case (Inr s')
    with independent_rows_addRow_encoded(2) [of Width j s s'] Cons.IH [of s']
    show ?thesis by simp
  qed
qed

lemma rejected_le: "rejected Width s js \<le> length js"
  by (induction js arbitrary: s) (auto split: sum.splits intro: le_SucI)

lemma solveEncoded_full_rank:
  "independent_rows s = Width \<Longrightarrow> \<exists>r s'. solveEncoded Width s = Inr (r, s')"
  by (simp add: solveEncoded_def solve_def Let_def)

lemma detect_loop_running:
  assumes W: "2 * Bits < 2 ^ 64"
  shows "independent_rows (feed Bits s js) < Bits \<Longrightarrow>
         unat i + length js < 2 * Bits + rejected Bits s js \<Longrightarrow>
         detect_loop Bits f u i s js = None"
proof (induction js arbitrary: s i)
  case Nil
  then show ?case by (simp add: budget_less2 [OF W])
next
  case (Cons j js)
  have rl: "rejected Bits s' js \<le> length js" for s' by (rule rejected_le)
  show ?case
  proof (cases "addRow_encoded Bits j s")
    case (Inl es)
    obtain e s' where es: "es = (e, s')" by (cases es)
    from Cons.prems Inl es have 1: "independent_rows (feed Bits s' js) < Bits"
      and 2: "unat i + length js < 2 * Bits + rejected Bits s' js" by simp_all
    from 2 rl [of s'] have "unat i < 2 * Bits" by simp
    then show ?thesis
      using Inl es Cons.IH [OF 1 2] by (simp add: budget_less2 [OF W])
  next
    case (Inr s')
    from Cons.prems Inr have 1: "independent_rows (feed Bits s' js) < Bits"
      and 2: "unat i + Suc (length js) < 2 * Bits + rejected Bits s' js" by simp_all
    from 2 rl [of s'] have i: "unat i < 2 * Bits" by simp
    from 1 independent_rows_feed [of s' Bits js] have r: "independent_rows s' \<noteq> Bits" by simp
    from 2 budget_incr [OF W i] have 3: "unat (i + 1) + length js < 2 * Bits + rejected Bits s' js" by simp
    show ?thesis
      using Inr i r Cons.IH [OF 1 3] by (simp add: budget_less2 [OF W] getIndependent_def)
  qed
qed

lemma detect_loop_budget:
  assumes W: "2 * Bits < 2 ^ 64"
  shows "independent_rows (feed Bits s js) < Bits \<Longrightarrow>
         unat i + length js = 2 * Bits + rejected Bits s js \<Longrightarrow>
         detect_loop Bits f u i s (js @ rest) = Some Feistel_budget"
proof (induction js arbitrary: s i)
  case Nil
  then show ?case by (cases rest) (simp_all add: budget_less2 [OF W])
next
  case (Cons j js)
  have rl: "rejected Bits s' js \<le> length js" for s' by (rule rejected_le)
  show ?case
  proof (cases "addRow_encoded Bits j s")
    case (Inl es)
    obtain e s' where es: "es = (e, s')" by (cases es)
    from Cons.prems Inl es have 1: "independent_rows (feed Bits s' js) < Bits"
      and 2: "unat i + length js = 2 * Bits + rejected Bits s' js" by simp_all
    show ?thesis
      using Inl es Cons.IH [OF 1 2] by (simp add: budget_less2 [OF W])
  next
    case (Inr s')
    from Cons.prems Inr have 1: "independent_rows (feed Bits s' js) < Bits"
      and 2: "unat i + Suc (length js) = 2 * Bits + rejected Bits s' js" by simp_all
    from 2 rl [of s'] have i: "unat i < 2 * Bits" by simp
    from 1 independent_rows_feed [of s' Bits js] have r: "independent_rows s' \<noteq> Bits" by simp
    from 2 budget_incr [OF W i] have 3: "unat (i + 1) + length js = 2 * Bits + rejected Bits s' js" by simp
    show ?thesis
      using Inr i r Cons.IH [OF 1 3] by (simp add: budget_less2 [OF W] getIndependent_def)
  qed
qed

lemma detect_loop_ends:
  assumes W: "2 * Bits < 2 ^ 64"
  shows "2 * Bits + rejected Bits s js \<le> unat i + length js \<Longrightarrow>
         \<exists>v. detect_loop Bits f u i s js = Some v"
proof (induction js arbitrary: s i)
  case Nil
  then show ?case by (simp add: budget_less2 [OF W])
next
  case (Cons j js)
  show ?case
  proof (cases "unat i < 2 * Bits")
    case False
    then show ?thesis by (simp add: budget_less2 [OF W])
  next
    case i: True
    show ?thesis
    proof (cases "addRow_encoded Bits j s")
      case (Inl es)
      obtain e s' where es: "es = (e, s')" by (cases es)
      from Cons.prems Inl es have 2: "2 * Bits + rejected Bits s' js \<le> unat i + length js" by simp
      show ?thesis
        using Inl es i Cons.IH [OF 2] by (simp add: budget_less2 [OF W])
    next
      case (Inr s')
      show ?thesis
      proof (cases "independent_rows s' = Bits")
        case True
        from solveEncoded_full_rank [OF True] obtain r s'' where "solveEncoded Bits s' = Inr (r, s'')"
          by blast
        then show ?thesis
          using Inr i True by (simp add: budget_less2 [OF W] getIndependent_def Let_def)
      next
        case False
        from Cons.prems Inr budget_incr [OF W i]
        have 3: "2 * Bits + rejected Bits s' js \<le> unat (i + 1) + length js" by simp
        show ?thesis
          using Inr i False Cons.IH [OF 3] by (simp add: budget_less2 [OF W] getIndependent_def)
      qed
    qed
  qed
qed

lemma feed_append: "feed Width s (xs @ ys) = feed Width (feed Width s xs) ys"
  by (induction xs arbitrary: s) (auto split: sum.splits)

text \<open>
  C7. \<open>js\<close> are the samples of a run. If \<open>2 * Bits\<close> of them were not rejected by
  \<^verbatim>\<open>addRow\<close> (the length of \<open>js\<close> is \<open>2 * Bits\<close> plus the number of rejected ones) and the
  solver has not reached rank \<open>Bits\<close> with them, the run ends there with the verdict printed
  after the loop, whatever samples might follow. Rejected samples do not count: as long as
  fewer than \<open>2 * Bits\<close> of the samples consumed were not rejected, the run has not ended.
  \<open>2 * Bits < 2 ^ 64\<close>: the bound of the loop fits a \<^verbatim>\<open>size_t\<close>.
\<close>

theorem budget_exhausted_verdict:
  assumes "2 * Bits < 2 ^ 64"
    and "length js = 2 * Bits + rejected Bits MatrixSolver js"
    and "getIndependent (feed Bits MatrixSolver js) < Bits"
  shows "run_feistel_detect Bits internal_callback ALPHA BETA u (js @ rest) = Some Feistel_budget
       \<and> (\<forall>n \<le> length js. n < 2 * Bits + rejected Bits MatrixSolver (take n js) \<longrightarrow>
             run_feistel_detect Bits internal_callback ALPHA BETA u (take n js) = None)"
proof (intro conjI allI impI)
  show "run_feistel_detect Bits internal_callback ALPHA BETA u (js @ rest) = Some Feistel_budget"
    unfolding run_feistel_detect_def
    using assms by (intro detect_loop_budget) (simp_all add: getIndependent_def)
next
  fix n assume n: "n \<le> length js" "n < 2 * Bits + rejected Bits MatrixSolver (take n js)"
  have "independent_rows (feed Bits MatrixSolver (take n js)) \<le> independent_rows (feed Bits MatrixSolver (take n js @ drop n js))"
    unfolding feed_append by (rule independent_rows_feed)
  with assms(3) have "independent_rows (feed Bits MatrixSolver (take n js)) < Bits"
    by (simp add: getIndependent_def)
  then show "run_feistel_detect Bits internal_callback ALPHA BETA u (take n js) = None"
    unfolding run_feistel_detect_def
    using n by (intro detect_loop_running [OF assms(1)]) simp_all
qed

text \<open>
  C8 (amended). A run ends with a verdict once the samples returned hold \<open>2 * Bits\<close> that
  \<^verbatim>\<open>addRow\<close> did not reject; the rejected ones are retried and no bound on their number is
  part of the loop.
\<close>

theorem detect_terminates:
  assumes "2 * Bits < 2 ^ 64"
    and "2 * Bits + rejected Bits MatrixSolver js \<le> length js"
  shows "\<exists>v. run_feistel_detect Bits internal_callback ALPHA BETA u js = Some v"
  unfolding run_feistel_detect_def
  using assms(2) by (intro detect_loop_ends [OF assms(1)]) simp

lemma reject_one:
  assumes "independent_rows s = 0" "length (contents s) = length (targets s)"
  shows "addRow_encoded 1 1 s =
     Inl (Invalid_equation, s\<lparr>contents := contents s @ [[False]], targets := targets s @ [True]\<rparr>)"
  using assms
  by (simp add: addRow_encoded_def addRow_def independent_def content_copy_def eliminate_column_def
      eliminate_below_def swap_rows_def one_vector_def int_shl_def upt_rec nth_append)

lemma only_rejected:
  "independent_rows s = 0 \<Longrightarrow> length (contents s) = length (targets s) \<Longrightarrow>
     detect_loop 1 f u 0 s (replicate n 1) = None"
proof (induction n arbitrary: s)
  case 0
  show ?case by simp
next
  case (Suc n)
  let ?s' = "s\<lparr>contents := contents s @ [[False]], targets := targets s @ [True]\<rparr>"
  have "detect_loop 1 f u 0 ?s' (replicate n 1) = None"
    using Suc.prems by (intro Suc.IH) simp_all
  then show ?case
    using reject_one [OF Suc.prems] by simp
qed

text \<open>
  C8 as stated fails: with \<open>Bits = 1\<close>, on the sample 1 over and over (the equation
  \<open>0 = 1\<close>), every call of \<^verbatim>\<open>addRow\<close> throws, \<open>i\<close> stays 0 and the loop asks for the
  next sample however many it has had.
\<close>

theorem detect_terminates_counterexample:
  "\<not> (\<forall>samples :: nat \<Rightarrow> size_t. \<exists>n. run_feistel_detect 1 (\<lambda>x. 0) 0 0 0 (map samples [0..<n]) \<noteq> None)"
proof
  assume "\<forall>samples :: nat \<Rightarrow> size_t. \<exists>n. run_feistel_detect 1 (\<lambda>x. 0) 0 0 0 (map samples [0..<n]) \<noteq> None"
  then obtain n where "run_feistel_detect 1 (\<lambda>x. 0) 0 0 0 (map (\<lambda>_. 1) [0..<n]) \<noteq> None"
    by blast
  moreover have "map (\<lambda>_. 1::size_t) [0..<n] = replicate n 1"
    by (simp add: map_replicate_const)
  moreover have "detect_loop 1 (\<lambda>input. run_f 1 input (\<lambda>x. 0) 0 0) 0 0 MatrixSolver (replicate n 1) = None"
    by (rule only_rejected) (simp_all add: MatrixSolver_def)
  ultimately show False
    by (simp add: run_feistel_detect_def)
qed

lemma sample_run_rejected: "rejected 2 MatrixSolver [0, 1, 0, 1, 0, 0] = 2"
  by (simp add: solver_eval)

lemma sample_run_feed: "independent_rows (feed 2 MatrixSolver [0, 1, 0, 1, 0, 0]) = 0"
  by (simp add: solver_eval)

theorem budget_exhausted_verdict_witness:
  "length [0, 1, 0, 1, 0, 0 :: size_t] = 2 * 2 + rejected 2 MatrixSolver [0, 1, 0, 1, 0, 0] \<and>
   getIndependent (feed 2 MatrixSolver [0, 1, 0, 1, 0, 0]) < 2 \<and>
   run_feistel_detect 2 (\<lambda>x. x) 0 0 0 ([0, 1, 0, 1, 0, 0] @ [6]) = Some Feistel_budget \<and>
   run_feistel_detect 2 (\<lambda>x. x) 0 0 0 (take 5 [0, 1, 0, 1, 0, 0]) = None"
proof -
  have W: "2 * (2::nat) < 2 ^ 64" by simp
  have L: "length [0, 1, 0, 1, 0, 0 :: size_t] = 2 * 2 + rejected 2 MatrixSolver [0, 1, 0, 1, 0, 0]"
    unfolding sample_run_rejected by simp
  have R: "getIndependent (feed 2 MatrixSolver [0, 1, 0, 1, 0, 0]) < 2"
    unfolding getIndependent_def sample_run_feed by simp
  have P: "rejected 2 MatrixSolver (take 5 [0, 1, 0, 1, 0, 0]) = 2"
    by (simp add: solver_eval)
  from budget_exhausted_verdict [OF W L R, of "\<lambda>x. x" 0 0 0 "[6]"]
  have "run_feistel_detect 2 (\<lambda>x. x) 0 0 0 ([0, 1, 0, 1, 0, 0] @ [6]) = Some Feistel_budget"
    and "5 \<le> length [0, 1, 0, 1, 0, 0 :: size_t] \<longrightarrow> 5 < 2 * 2 + rejected 2 MatrixSolver (take 5 [0, 1, 0, 1, 0, 0]) \<longrightarrow>
       run_feistel_detect 2 (\<lambda>x. x) 0 0 0 (take 5 [0, 1, 0, 1, 0, 0]) = None"
    by blast+
  then show ?thesis using L R P by simp
qed

theorem detect_terminates_witness:
  "2 * 2 + rejected 2 MatrixSolver [0, 1, 0, 1, 0, 0] \<le> length [0, 1, 0, 1, 0, 0 :: size_t] \<and>
   (\<exists>v. run_feistel_detect 2 (\<lambda>x. x) 0 0 0 [0, 1, 0, 1, 0, 0] = Some v)"
proof -
  have W: "2 * (2::nat) < 2 ^ 64" by simp
  have L: "2 * 2 + rejected 2 MatrixSolver [0, 1, 0, 1, 0, 0] \<le> length [0, 1, 0, 1, 0, 0 :: size_t]"
    unfolding sample_run_rejected by simp
  show ?thesis using L detect_terminates [OF W L] by blast
qed

section \<open>Loops over index ranges\<close>

lemma fold_upt_invariant:
  assumes "a \<le> b" and "P a s"
    and "\<And>k s. a \<le> k \<Longrightarrow> k < b \<Longrightarrow> P k s \<Longrightarrow> P (Suc k) (f k s)"
  shows "P b (fold f [a..<b] s)"
proof -
  have "a \<le> m \<Longrightarrow> m \<le> b \<Longrightarrow> P m (fold f [a..<m] s)" for m
  proof (induction m)
    case 0
    with assms(2) show ?case by simp
  next
    case (Suc m)
    show ?case
    proof (cases "a = Suc m")
      case True
      with assms(2) show ?thesis by simp
    next
      case False
      with Suc.prems have am: "a \<le> m" by simp
      with Suc have "P m (fold f [a..<m] s)" by simp
      with assms(3) [of m] am Suc.prems have "P (Suc m) (f m (fold f [a..<m] s))" by simp
      with am show ?thesis by simp
    qed
  qed
  with assms(1) show ?thesis by simp
qed

lemma fold_unchanged: "(\<And>x. x \<in> set xs \<Longrightarrow> f x s = s) \<Longrightarrow> fold f xs s = s"
  by (induction xs) simp_all

lemma find_upt_None: "find P [a..<b] = None \<longleftrightarrow> (\<forall>k. a \<le> k \<and> k < b \<longrightarrow> \<not> P k)"
  by (auto simp: find_None_iff)

lemma find_upt_Some:
  assumes "find P [a..<b] = Some k"
  shows "a \<le> k" "k < b" "P k" "\<And>k'. a \<le> k' \<Longrightarrow> k' < k \<Longrightarrow> \<not> P k'"
proof -
  from assms obtain idx where idx: "idx < length [a..<b]" "P ([a..<b] ! idx)" "k = [a..<b] ! idx"
    "\<forall>j<idx. \<not> P ([a..<b] ! j)"
    unfolding find_Some_iff by blast
  then have k: "k = a + idx" "idx < b - a" by simp_all
  from k show "a \<le> k" "k < b" by simp_all
  from idx show "P k" by simp
  fix k' assume "a \<le> k'" "k' < k"
  then have "k' - a < idx" "[a..<b] ! (k' - a) = k'" using k by simp_all
  with idx(4) show "\<not> P k'" by metis
qed

section \<open>Vectors\<close>

lemma length_xor_vectors: "length (xor_vectors a b) = min (length a) (length b)"
  by (simp add: xor_vectors_def)

lemma nth_xor_vectors:
  "c < length a \<Longrightarrow> c < length b \<Longrightarrow> xor_vectors a b ! c = (a ! c \<noteq> b ! c)"
  by (simp add: xor_vectors_def)

lemma swap_rows_same: "swap_rows a a M = M"
  by (simp add: swap_rows_def)

lemma length_swap_rows: "length (swap_rows a b M) = length M"
  by (simp add: swap_rows_def)

lemma nth_swap_rows:
  "a < length M \<Longrightarrow> b < length M \<Longrightarrow> r < length M \<Longrightarrow>
     swap_rows a b M ! r = (if r = b then M ! a else if r = a then M ! b else M ! r)"
  by (simp add: swap_rows_def nth_list_update)

section \<open>gaussianEliminate: shape of one step\<close>

lemma gauss_eliminate_below_shape:
  assumes "i < n" "n \<le> length C" "length T = length C"
  shows "case gauss_eliminate_below n i (C, T) of (C', T') \<Rightarrow>
           length C' = length C \<and> length T' = length T \<and>
           (\<forall>r<length C. C' ! r = (if i < r \<and> r < n \<and> C ! r ! i then xor_vectors (C ! r) (C ! i) else C ! r)) \<and>
           (\<forall>r<length C. T' ! r = (if i < r \<and> r < n \<and> C ! r ! i then (T ! i \<noteq> T ! r) else T ! r))"
proof -
  let ?P = "\<lambda>k CT. case CT of (C', T') \<Rightarrow>
           length C' = length C \<and> length T' = length T \<and>
           (\<forall>r<length C. C' ! r = (if i < r \<and> r < k \<and> C ! r ! i then xor_vectors (C ! r) (C ! i) else C ! r)) \<and>
           (\<forall>r<length C. T' ! r = (if i < r \<and> r < k \<and> C ! r ! i then (T ! i \<noteq> T ! r) else T ! r))"
  let ?f = "\<lambda>j CT. case CT of (C, T) \<Rightarrow>
             if C ! j ! i then (C[j := xor_vectors (C ! j) (C ! i)], T[j := (T ! i \<noteq> T ! j)])
             else (C, T)"
  have "?P n (fold ?f [i + 1..<n] (C, T))"
  proof (rule fold_upt_invariant [where P = ?P])
    show "i + 1 \<le> n" using assms(1) by simp
    show "?P (i + 1) (C, T)" by auto
  next
    fix k CT assume k: "i + 1 \<le> k" "k < n" and P: "?P k CT"
    obtain C' T' where CT: "CT = (C', T')" by (cases CT)
    from P CT have len: "length C' = length C" "length T' = length T"
      and C': "\<And>r. r < length C \<Longrightarrow> C' ! r = (if i < r \<and> r < k \<and> C ! r ! i then xor_vectors (C ! r) (C ! i) else C ! r)"
      and T': "\<And>r. r < length C \<Longrightarrow> T' ! r = (if i < r \<and> r < k \<and> C ! r ! i then (T ! i \<noteq> T ! r) else T ! r)"
      by auto
    have kl: "k < length C" "i < length C" "i < k" using k assms by simp_all
    have ck: "C' ! k = C ! k" "C' ! i = C ! i" "T' ! k = T ! k" "T' ! i = T ! i"
      using C' [of k] C' [of i] T' [of k] T' [of i] kl by simp_all
    show "?P (Suc k) (?f k CT)"
      unfolding CT using len kl assms(3) C' T' ck
      by (auto simp: nth_list_update less_Suc_eq)
  qed
  then show ?thesis by (simp add: gauss_eliminate_below_def)
qed

lemma gauss_eliminate_below_noop:
  assumes "\<forall>j. i < j \<and> j < n \<longrightarrow> \<not> C ! j ! i"
  shows "gauss_eliminate_below n i (C, T) = (C, T)"
  unfolding gauss_eliminate_below_def
  by (rule fold_unchanged) (use assms in auto)

lemma mat_ok_swap:
  assumes "mat_ok W n C T" "p < n" "i < n"
  shows "mat_ok W n (swap_rows p i C) (swap_rows p i T)"
  using assms unfolding mat_ok_def
  by (auto simp: length_swap_rows nth_swap_rows)

lemma mat_ok_eliminate:
  assumes ok: "mat_ok W n C T" and i: "i < n"
  shows "case gauss_eliminate_below n i (C, T) of (C', T') \<Rightarrow> mat_ok W n C' T'"
proof -
  obtain C' T' where r: "gauss_eliminate_below n i (C, T) = (C', T')"
    by (cases "gauss_eliminate_below n i (C, T)")
  from ok have l: "n \<le> length C" "length T = length C" and w: "\<And>r. r < length C \<Longrightarrow> length (C ! r) = W"
    by (auto simp: mat_ok_def)
  from gauss_eliminate_below_shape [OF i l] r
  have len: "length C' = length C" "length T' = length T"
    and C': "\<And>r. r < length C \<Longrightarrow> C' ! r = (if i < r \<and> r < n \<and> C ! r ! i then xor_vectors (C ! r) (C ! i) else C ! r)"
    by auto
  have "length (C' ! r) = W" if "r < length C" for r
    using C' [OF that] w [OF that] w [of i] i l by (simp add: length_xor_vectors)
  with len l show ?thesis by (simp add: r mat_ok_def)
qed

lemma mat_ok_gauss_column:
  assumes ok: "mat_ok W n C T" and i: "i < n"
  shows "case gauss_column n i (C, T) of (C', T') \<Rightarrow> mat_ok W n C' T'"
proof (cases "find (\<lambda>j. C ! j ! i) [i..<n]")
  case None
  then show ?thesis using mat_ok_eliminate [OF ok i] by (simp add: gauss_column_def)
next
  case (Some p)
  from find_upt_Some(2) [OF Some] have "p < n" .
  from mat_ok_eliminate [OF mat_ok_swap [OF ok this i] i] Some
  show ?thesis by (simp add: gauss_column_def)
qed

lemma below_zero_gauss_column:
  assumes ok: "mat_ok W n C T" and i: "i < n" "i < W" and bz: "below_zero i n C"
  shows "case gauss_column n i (C, T) of (C', T') \<Rightarrow> below_zero (Suc i) n C'"
proof -
  from ok have l: "n \<le> length C" "length T = length C" and w: "\<And>r. r < length C \<Longrightarrow> length (C ! r) = W"
    by (auto simp: mat_ok_def)
  from bz have z: "\<And>c j. c < i \<Longrightarrow> c < j \<Longrightarrow> j < n \<Longrightarrow> \<not> C ! j ! c"
    by (auto simp: below_zero_def)
  show ?thesis
  proof (cases "find (\<lambda>j. C ! j ! i) [i..<n]")
    case None
    then have none: "\<And>j. i \<le> j \<Longrightarrow> j < n \<Longrightarrow> \<not> C ! j ! i" by (auto simp: find_upt_None)
    then have "gauss_eliminate_below n i (C, T) = (C, T)"
      by (intro gauss_eliminate_below_noop) auto
    with None have "gauss_column n i (C, T) = (C, T)" by (simp add: gauss_column_def)
    moreover have "below_zero (Suc i) n C"
      unfolding below_zero_def using z none by (auto simp: less_Suc_eq)
    ultimately show ?thesis by simp
  next
    case (Some p)
    note p = find_upt_Some [OF Some]
    let ?C1 = "swap_rows p i C" and ?T1 = "swap_rows p i T"
    have ok1: "mat_ok W n ?C1 ?T1" using ok p(2) i(1) by (rule mat_ok_swap)
    then have l1: "n \<le> length ?C1" "length ?T1 = length ?C1"
      and w1: "\<And>r. r < length C \<Longrightarrow> length (?C1 ! r) = W"
      by (auto simp: mat_ok_def length_swap_rows)
    have pl: "p < length C" "i < length C" using p(2) i l by simp_all
    have z1: "\<not> ?C1 ! j ! c" if "c < i" "c < j" "j < n" for c j
      using that z [of c j] z [of c p] z [of c i] p(1,2) i(1) pl l by (simp add: nth_swap_rows)
    have piv: "?C1 ! i ! i" using p(3) pl by (simp add: nth_swap_rows)
    obtain C' T' where r: "gauss_eliminate_below n i (?C1, ?T1) = (C', T')"
      by (cases "gauss_eliminate_below n i (?C1, ?T1)")
    from gauss_eliminate_below_shape [OF i(1) l1] r
    have C': "\<And>r. r < length C \<Longrightarrow> C' ! r = (if i < r \<and> r < n \<and> ?C1 ! r ! i then xor_vectors (?C1 ! r) (?C1 ! i) else ?C1 ! r)"
      by (auto simp: length_swap_rows)
    have "\<not> C' ! j ! c" if "c < Suc i" "c < j" "j < n" for c j
    proof -
      have jl: "j < length C" using that l by simp
      have cw: "c < length (?C1 ! j)" "c < length (?C1 ! i)" using that i(2) w1 [OF jl] w1 [OF pl(2)] by simp_all
      show ?thesis
      proof (cases "c = i")
        case True
        then show ?thesis using that C' [OF jl] piv cw by (simp add: nth_xor_vectors)
      next
        case False
        with that have ci: "c < i" by simp
        then show ?thesis
          using that C' [OF jl] cw z1 [of c j] z1 [of c i] i(1) by (auto simp: nth_xor_vectors)
      qed
    qed
    then have "below_zero (Suc i) n C'" by (simp add: below_zero_def)
    then show ?thesis using Some r by (simp add: gauss_column_def)
  qed
qed

lemma gauss_column_fixed:
  assumes bz: "below_zero (Suc i) n C"
  shows "gauss_column n i (C, T) = (C, T)"
proof -
  from bz have z: "\<And>j. i < j \<Longrightarrow> j < n \<Longrightarrow> \<not> C ! j ! i" by (auto simp: below_zero_def)
  then have el: "gauss_eliminate_below n i (C, T) = (C, T)"
    by (intro gauss_eliminate_below_noop) auto
  show ?thesis
  proof (cases "find (\<lambda>j. C ! j ! i) [i..<n]")
    case None
    with el show ?thesis by (simp add: gauss_column_def)
  next
    case (Some p)
    note p = find_upt_Some [OF Some]
    from p(1,2,3) z [of p] have "p = i" by (cases "p = i") auto
    with Some el show ?thesis by (simp add: gauss_column_def swap_rows_same)
  qed
qed

lemma below_zero_mono: "below_zero k n C \<Longrightarrow> i \<le> k \<Longrightarrow> below_zero i n C"
  by (auto simp: below_zero_def)

lemma gauss_fold_triangular:
  assumes ok: "mat_ok W n C T" and n: "W \<le> n"
  shows "case fold (gauss_column n) [0..<W] (C, T) of (C', T') \<Rightarrow> mat_ok W n C' T' \<and> below_zero W n C'"
proof -
  let ?P = "\<lambda>i CT. case CT of (C', T') \<Rightarrow> mat_ok W n C' T' \<and> below_zero i n C'"
  show ?thesis
  proof (rule fold_upt_invariant [where P = ?P])
    show "?P 0 (C, T)" using ok by (simp add: below_zero_def)
  next
    fix k CT assume k: "0 \<le> k" "k < W" and P: "?P k CT"
    obtain C' T' where CT: "CT = (C', T')" by (cases CT)
    from P CT have ok': "mat_ok W n C' T'" and bz: "below_zero k n C'" by auto
    from k n have kn: "k < n" by simp
    from mat_ok_gauss_column [OF ok' kn] below_zero_gauss_column [OF ok' kn k(2) bz]
    show "?P (Suc k) (gauss_column n k CT)" unfolding CT by auto
  qed simp
qed

lemma gauss_fold_fixed:
  assumes "below_zero W n C"
  shows "fold (gauss_column n) [0..<W] (C, T) = (C, T)"
proof (rule fold_unchanged)
  fix i assume "i \<in> set [0..<W]"
  then have "Suc i \<le> W" by simp
  with assms have "below_zero (Suc i) n C" by (rule below_zero_mono)
  then show "gauss_column n i (C, T) = (C, T)" by (rule gauss_column_fixed)
qed

lemma mat_ok_solver: "wf_solver W s \<Longrightarrow> mat_ok W (independent_rows s) (contents s) (targets s)"
  by (auto simp: wf_solver_def mat_ok_def list_all_length)

lemma gaussianEliminate_idem:
  assumes "wf_solver W s" "independent_rows s = W"
  shows "gaussianEliminate W (gaussianEliminate W s) = gaussianEliminate W s"
proof -
  obtain C' T' where r: "fold (gauss_column W) [0..<W] (contents s, targets s) = (C', T')"
    by (cases "fold (gauss_column W) [0..<W] (contents s, targets s)")
  have ok: "mat_ok W W (contents s) (targets s)"
    using mat_ok_solver [OF assms(1)] assms(2) by simp
  from gauss_fold_triangular [OF ok] r
  have "below_zero W W C'" by simp
  then have "fold (gauss_column W) [0..<W] (C', T') = (C', T')" by (rule gauss_fold_fixed)
  then show ?thesis using r assms(2) by (simp add: gaussianEliminate_def)
qed

text \<open>
  C6 (amended). With rank \<open>Width\<close>, \<^verbatim>\<open>solve\<close> returns a vector and leaves the solver
  eliminated in place; a second call on that solver returns the same vector and leaves the
  solver as the first call left it.
\<close>

theorem solve_twice:
  assumes "wf_solver Width s" "getIndependent s = Width"
  shows "\<exists>x s'. solve Width s = Inr (x, s') \<and> solve Width s' = Inr (x, s')"
proof -
  let ?s' = "gaussianEliminate Width s"
  have ir: "independent_rows s = Width" using assms(2) by (simp add: getIndependent_def)
  have ir': "independent_rows ?s' = Width"
    using ir by (simp add: gaussianEliminate_def split: prod.splits)
  have 1: "solve Width s = Inr (backwardSubstitute Width ?s', ?s')"
    using ir by (simp add: solve_def Let_def)
  have 2: "solve Width ?s' = Inr (backwardSubstitute Width ?s', ?s')"
    using ir' gaussianEliminate_idem [OF assms(1) ir] by (simp add: solve_def Let_def)
  from 1 2 show ?thesis by blast
qed

section \<open>Sums modulo 2\<close>

lemma xor_sum_cong: "(\<And>i. i < n \<Longrightarrow> f i = g i) \<Longrightarrow> xor_sum n f = xor_sum n g"
  by (induction n) simp_all

lemma xor_sum_zero: "(\<And>i. i < n \<Longrightarrow> \<not> f i) \<Longrightarrow> \<not> xor_sum n f"
  by (induction n) simp_all

lemma xor_sum_xor: "xor_sum n (\<lambda>i. f i \<noteq> g i) = (xor_sum n f \<noteq> xor_sum n g)"
  by (induction n) auto

lemma xor_sum_single: "xor_sum n (\<lambda>i. i = k \<and> P) = (k < n \<and> P)"
  by (induction n) (auto simp: less_Suc_eq)

lemma xor_sum_split: "k < n \<Longrightarrow> xor_sum n f = (xor_sum n (\<lambda>i. i \<noteq> k \<and> f i) \<noteq> f k)"
proof -
  assume k: "k < n"
  have "xor_sum n f = xor_sum n (\<lambda>i. (i \<noteq> k \<and> f i) \<noteq> (i = k \<and> f k))"
    by (rule xor_sum_cong) auto
  also have "\<dots> = (xor_sum n (\<lambda>i. i \<noteq> k \<and> f i) \<noteq> (k < n \<and> f k))"
    by (simp only: xor_sum_xor xor_sum_single)
  finally show ?thesis using k by simp
qed

lemma xor_sum_first: "(\<And>i. i < k \<Longrightarrow> \<not> f i) \<Longrightarrow> (\<And>i. k < i \<Longrightarrow> i < n \<Longrightarrow> \<not> f i) \<Longrightarrow> k < n \<Longrightarrow>
  xor_sum n f = f k"
proof -
  assume a: "\<And>i. i < k \<Longrightarrow> \<not> f i" "\<And>i. k < i \<Longrightarrow> i < n \<Longrightarrow> \<not> f i" and k: "k < n"
  have "\<not> xor_sum n (\<lambda>i. i \<noteq> k \<and> f i)"
    by (rule xor_sum_zero) (use a in \<open>metis nat_neq_iff\<close>)
  then show ?thesis using xor_sum_split [OF k, of f] by simp
qed

section \<open>Combinations of rows\<close>

lemma length_comb: "length (comb W sel rows) = W"
  by (simp add: comb_def)

lemma nth_comb: "c < W \<Longrightarrow> comb W sel rows ! c = xor_sum (length rows) (\<lambda>i. sel ! i \<and> rows ! i ! c)"
  by (simp add: comb_def)

lemma comb_eqI:
  "(\<And>c. c < W \<Longrightarrow> xor_sum (length M) (\<lambda>i. s ! i \<and> M ! i ! c) = xor_sum (length M') (\<lambda>i. s' ! i \<and> M' ! i ! c))
   \<Longrightarrow> comb W s M = comb W s' M'"
  by (simp add: comb_def)

lemma comb_zero_iff:
  "comb W sel M = replicate W False \<longleftrightarrow> (\<forall>c<W. \<not> xor_sum (length M) (\<lambda>i. sel ! i \<and> M ! i ! c))"
  by (auto simp: list_eq_iff_nth_eq length_comb nth_comb)

lemma set_all_sels: "set (all_sels n) = {s. length s = n}"
proof (induction n)
  case 0
  show ?case by simp
next
  case (Suc n)
  show ?case
  proof (intro set_eqI iffI)
    fix s assume "s \<in> set (all_sels (Suc n))"
    with Suc show "s \<in> {s. length s = Suc n}" by auto
  next
    fix s :: "bool list" assume "s \<in> {s. length s = Suc n}"
    then obtain b t where s: "s = b # t" "length t = n" by (cases s) auto
    with Suc have "t \<in> set (all_sels n)" by simp
    then show "s \<in> set (all_sels (Suc n))" using s by (cases b) auto
  qed
qed

lemma sel_zero_iff: "length sel = n \<Longrightarrow> sel = replicate n False \<longleftrightarrow> (\<forall>i<n. \<not> sel ! i)"
  by (auto simp: list_eq_iff_nth_eq)

lemma lin_indep_iff:
  "lin_indep W M \<longleftrightarrow>
     (\<forall>sel. length sel = length M \<longrightarrow> comb W sel M = replicate W False \<longrightarrow> (\<forall>i<length M. \<not> sel ! i))"
  unfolding lin_indep_def set_all_sels by (auto simp: sel_zero_iff)

lemma lin_indepI:
  "(\<And>sel i. length sel = length M \<Longrightarrow> comb W sel M = replicate W False \<Longrightarrow> i < length M \<Longrightarrow> \<not> sel ! i)
   \<Longrightarrow> lin_indep W M"
  unfolding lin_indep_iff by blast

lemma lin_indepD:
  "lin_indep W M \<Longrightarrow> length sel = length M \<Longrightarrow> comb W sel M = replicate W False \<Longrightarrow> i < length M \<Longrightarrow> \<not> sel ! i"
  unfolding lin_indep_iff by blast

lemma in_span_iff: "in_span W M r \<longleftrightarrow> (\<exists>sel. length sel = length M \<and> comb W sel M = r)"
  unfolding in_span_def set_all_sels by auto

lemma contradicts_iff:
  "contradicts W M T r t \<longleftrightarrow> (\<exists>sel. length sel = length M \<and> comb W sel M = r \<and> dot sel T \<noteq> t)"
  unfolding contradicts_def set_all_sels by auto

section \<open>Row operations\<close>

lemma rows_ok_xor_row: "rows_ok W M \<Longrightarrow> k < length M \<Longrightarrow> p < length M \<Longrightarrow> rows_ok W (xor_row k p M)"
  by (auto simp: rows_ok_def xor_row_def nth_list_update length_xor_vectors)

lemma length_xor_row: "length (xor_row k p M) = length M"
  by (simp add: xor_row_def)

lemma comb_xor_row:
  assumes ok: "rows_ok W M" and k: "k < length M" and p: "p < length M" and kp: "k \<noteq> p"
    and sel: "length sel = length M"
  shows "comb W sel (xor_row k p M) = comb W (sel[p := (sel ! p \<noteq> sel ! k)]) M"
proof (rule comb_eqI)
  fix c assume c: "c < W"
  let ?n = "length M"
  have cl: "c < length (M ! k)" "c < length (M ! p)" using ok k p c by (simp_all add: rows_ok_def)
  have "xor_sum (length (xor_row k p M)) (\<lambda>i. sel ! i \<and> xor_row k p M ! i ! c)
      = xor_sum ?n (\<lambda>i. (sel ! i \<and> M ! i ! c) \<noteq> (i = k \<and> sel ! k \<and> M ! p ! c))"
    unfolding length_xor_row
    by (rule xor_sum_cong) (use cl k in \<open>auto simp: xor_row_def nth_list_update nth_xor_vectors\<close>)
  also have "\<dots> = (xor_sum ?n (\<lambda>i. sel ! i \<and> M ! i ! c) \<noteq> (sel ! k \<and> M ! p ! c))"
    using k by (simp only: xor_sum_xor xor_sum_single) simp
  also have "\<dots> = xor_sum ?n (\<lambda>i. (sel ! i \<and> M ! i ! c) \<noteq> (i = p \<and> sel ! k \<and> M ! p ! c))"
    using p by (simp only: xor_sum_xor xor_sum_single) simp
  also have "\<dots> = xor_sum ?n (\<lambda>i. sel[p := (sel ! p \<noteq> sel ! k)] ! i \<and> M ! i ! c)"
    by (rule xor_sum_cong) (use sel p in \<open>auto simp: nth_list_update\<close>)
  finally show "xor_sum (length (xor_row k p M)) (\<lambda>i. sel ! i \<and> xor_row k p M ! i ! c)
      = xor_sum ?n (\<lambda>i. sel[p := (sel ! p \<noteq> sel ! k)] ! i \<and> M ! i ! c)" .
qed

lemma lin_indep_xor_row_imp:
  assumes ok: "rows_ok W M" and k: "k < length M" and p: "p < length M" and kp: "k \<noteq> p"
    and li: "lin_indep W M"
  shows "lin_indep W (xor_row k p M)"
proof (rule lin_indepI)
  fix sel i assume sel: "length sel = length (xor_row k p M)"
    and z: "comb W sel (xor_row k p M) = replicate W False" and i: "i < length (xor_row k p M)"
  let ?sel' = "sel[p := (sel ! p \<noteq> sel ! k)]"
  from sel have sl: "length sel = length M" by (simp add: length_xor_row)
  from z comb_xor_row [OF ok k p kp sl] have "comb W ?sel' M = replicate W False" by simp
  with li sl have n: "\<And>i. i < length M \<Longrightarrow> \<not> ?sel' ! i" by (intro lin_indepD [of W M ?sel']) simp_all
  from n [of k] k kp sl have sk: "\<not> sel ! k" by (simp add: nth_list_update)
  from n [of p] p sl sk have sp: "\<not> sel ! p" by (simp add: nth_list_update)
  from n [of i] i sl sp show "\<not> sel ! i" by (cases "i = p") (simp_all add: length_xor_row nth_list_update)
qed

lemma xor_vectors_cancel: "length a = length b \<Longrightarrow> xor_vectors (xor_vectors a b) b = a"
  by (auto simp: list_eq_iff_nth_eq length_xor_vectors nth_xor_vectors)

lemma xor_row_twice:
  assumes "rows_ok W M" "k < length M" "p < length M" "k \<noteq> p"
  shows "xor_row k p (xor_row k p M) = M"
proof -
  have "length (M ! k) = length (M ! p)" using assms by (simp add: rows_ok_def)
  then show ?thesis using assms
    by (simp add: xor_row_def xor_vectors_cancel)
qed

lemma lin_indep_xor_row:
  assumes ok: "rows_ok W M" and k: "k < length M" and p: "p < length M" and kp: "k \<noteq> p"
  shows "lin_indep W (xor_row k p M) \<longleftrightarrow> lin_indep W M"
proof
  assume "lin_indep W (xor_row k p M)"
  with lin_indep_xor_row_imp [OF rows_ok_xor_row [OF ok k p], of k p] k p kp
  have "lin_indep W (xor_row k p (xor_row k p M))" by (simp add: length_xor_row)
  then show "lin_indep W M" by (simp add: xor_row_twice [OF ok k p kp])
next
  assume "lin_indep W M"
  with ok k p kp show "lin_indep W (xor_row k p M)" by (intro lin_indep_xor_row_imp)
qed

lemma swap_rows_as_xor:
  assumes ok: "rows_ok W M" and a: "a < length M" and b: "b < length M" and ab: "a \<noteq> b"
  shows "swap_rows a b M = xor_row a b (xor_row b a (xor_row a b M))"
proof -
  have l: "length (M ! a) = length (M ! b)" using assms by (simp add: rows_ok_def)
  have 1: "xor_vectors (M ! b) (xor_vectors (M ! a) (M ! b)) = M ! a"
    using l by (auto simp: list_eq_iff_nth_eq length_xor_vectors nth_xor_vectors)
  have 2: "xor_vectors (xor_vectors (M ! a) (M ! b)) (M ! a) = M ! b"
    using l by (auto simp: list_eq_iff_nth_eq length_xor_vectors nth_xor_vectors)
  show ?thesis
    using a b ab 1 2
    by (simp add: swap_rows_def xor_row_def nth_list_update list_update_swap [of a b])
qed

lemma rows_ok_swap_rows: "rows_ok W M \<Longrightarrow> a < length M \<Longrightarrow> b < length M \<Longrightarrow> rows_ok W (swap_rows a b M)"
  by (auto simp: rows_ok_def length_swap_rows nth_swap_rows)

lemma lin_indep_swap_rows:
  assumes ok: "rows_ok W M" and a: "a < length M" and b: "b < length M"
  shows "lin_indep W (swap_rows a b M) \<longleftrightarrow> lin_indep W M"
proof (cases "a = b")
  case True
  then show ?thesis by (simp add: swap_rows_same)
next
  case False
  then have ba: "b \<noteq> a" by simp
  let ?M1 = "xor_row a b M"
  let ?M2 = "xor_row b a ?M1"
  have ok1: "rows_ok W ?M1" using ok a b by (rule rows_ok_xor_row)
  have ok2: "rows_ok W ?M2"
    by (rule rows_ok_xor_row [OF ok1]) (use a b in \<open>simp_all add: length_xor_row\<close>)
  have "lin_indep W (xor_row a b ?M2) \<longleftrightarrow> lin_indep W ?M2"
    using ok2 a b False by (intro lin_indep_xor_row) (simp_all add: length_xor_row)
  also have "\<dots> \<longleftrightarrow> lin_indep W ?M1"
    using ok1 a b ba by (intro lin_indep_xor_row) (simp_all add: length_xor_row)
  also have "\<dots> \<longleftrightarrow> lin_indep W M"
    using ok a b False by (intro lin_indep_xor_row)
  finally show ?thesis by (simp add: swap_rows_as_xor [OF ok a b False])
qed

section \<open>The elimination of independent, as row operations\<close>

lemma eliminate_below_noop:
  assumes "\<forall>k. row_offset \<le> k \<and> k < n \<longrightarrow> \<not> M ! k ! j"
  shows "eliminate_below n j row_offset M = M"
  unfolding eliminate_below_def
  by (rule fold_unchanged) (use assms in auto)

lemma eliminate_below_shape:
  assumes off: "0 < row_offset" "row_offset \<le> n" and n: "n \<le> length M"
  shows "length (eliminate_below n j row_offset M) = length M \<and>
         (\<forall>r<length M. eliminate_below n j row_offset M ! r =
            (if row_offset \<le> r \<and> r < n \<and> M ! r ! j \<and> M ! (row_offset - 1) ! j
             then xor_vectors (M ! r) (M ! (row_offset - 1)) else M ! r))"
proof -
  let ?q = "row_offset - 1"
  let ?P = "\<lambda>k M'. length M' = length M \<and>
         (\<forall>r<length M. M' ! r =
            (if row_offset \<le> r \<and> r < k \<and> M ! r ! j \<and> M ! ?q ! j
             then xor_vectors (M ! r) (M ! ?q) else M ! r))"
  let ?f = "\<lambda>k M. if M ! k ! j then (if M ! ?q ! j then M[k := xor_vectors (M ! k) (M ! ?q)] else M) else M"
  have "?P n (fold ?f [row_offset..<n] M)"
  proof (rule fold_upt_invariant [where P = ?P])
    show "row_offset \<le> n" by fact
    show "?P row_offset M" by auto
  next
    fix k M' assume k: "row_offset \<le> k" "k < n" and P: "?P k M'"
    from P have len: "length M' = length M"
      and M': "\<And>r. r < length M \<Longrightarrow> M' ! r =
            (if row_offset \<le> r \<and> r < k \<and> M ! r ! j \<and> M ! ?q ! j
             then xor_vectors (M ! r) (M ! ?q) else M ! r)"
      by auto
    have kl: "k < length M" "?q < length M" "?q < row_offset" using k off n by simp_all
    have ck: "M' ! k = M ! k" "M' ! ?q = M ! ?q"
      using M' [of k] M' [of ?q] kl by simp_all
    show "?P (Suc k) (?f k M')"
      using len kl k(1) M' ck by (auto simp: nth_list_update less_Suc_eq)
  qed
  then show ?thesis by (simp add: eliminate_below_def)
qed

lemma take_xor_vectors: "take V (xor_vectors a b) = xor_vectors (take V a) (take V b)"
  by (simp add: xor_vectors_def take_map take_zip)

lemma map_take_xor_row:
  "k < length M \<Longrightarrow> p < length M \<Longrightarrow> map (take V) (xor_row k p M) = xor_row k p (map (take V) M)"
  by (simp add: xor_row_def map_update take_xor_vectors)

lemma map_take_swap_rows:
  "a < length M \<Longrightarrow> b < length M \<Longrightarrow> map (take V) (swap_rows a b M) = swap_rows a b (map (take V) M)"
  by (simp add: swap_rows_def map_update)

lemma rows_ok_map_take: "rows_ok L M \<Longrightarrow> V \<le> L \<Longrightarrow> rows_ok V (map (take V) M)"
  by (simp add: rows_ok_def)

lemma li_xor_row:
  assumes "rows_ok L M" "V \<le> L" "k < length M" "p < length M" "k \<noteq> p"
  shows "li V (xor_row k p M) \<longleftrightarrow> li V M"
  unfolding li_def map_take_xor_row [OF assms(3,4)]
  using assms by (intro lin_indep_xor_row rows_ok_map_take [of L]) simp_all

lemma li_swap_rows:
  assumes "rows_ok L M" "V \<le> L" "a < length M" "b < length M"
  shows "li V (swap_rows a b M) \<longleftrightarrow> li V M"
  unfolding li_def map_take_swap_rows [OF assms(3,4)]
  using assms by (intro lin_indep_swap_rows rows_ok_map_take [of L]) simp_all

lemma eliminate_below_li:
  assumes ok: "rows_ok L M" and V: "V \<le> L" and off: "0 < row_offset" "row_offset \<le> n" and n: "n \<le> length M"
  shows "length (eliminate_below n j row_offset M) = length M \<and>
         rows_ok L (eliminate_below n j row_offset M) \<and>
         (li V (eliminate_below n j row_offset M) \<longleftrightarrow> li V M)"
proof -
  let ?q = "row_offset - 1"
  let ?P = "\<lambda>k M'. length M' = length M \<and> rows_ok L M' \<and> (li V M' \<longleftrightarrow> li V M)"
  let ?f = "\<lambda>k M. if M ! k ! j then (if M ! ?q ! j then M[k := xor_vectors (M ! k) (M ! ?q)] else M) else M"
  have "?P n (fold ?f [row_offset..<n] M)"
  proof (rule fold_upt_invariant [where P = ?P])
    show "row_offset \<le> n" by fact
    show "?P row_offset M" using ok by simp
  next
    fix k M' assume k: "row_offset \<le> k" "k < n" and P: "?P k M'"
    then have kl: "k < length M'" "?q < length M'" "k \<noteq> ?q" using off n by simp_all
    from P have ok': "rows_ok L M'" by simp
    have "?P (Suc k) (xor_row k ?q M')"
      using P li_xor_row [OF ok' V kl] rows_ok_xor_row [OF ok' kl(1,2)] by (simp add: length_xor_row)
    then show "?P (Suc k) (?f k M')"
      using P by (simp add: xor_row_def)
  qed
  then show ?thesis by (simp add: eliminate_below_def)
qed

lemma eliminate_column_li:
  assumes ok: "rows_ok L M" and V: "V \<le> L" and off: "row_offset \<le> n" and n: "n = length M"
  shows "case eliminate_column n j (row_offset, M) of (off', M') \<Rightarrow>
           length M' = length M \<and> rows_ok L M' \<and> off' \<le> n \<and> (li V M' \<longleftrightarrow> li V M)"
proof (cases "find (\<lambda>k. M ! k ! j) [row_offset..<n]")
  case None
  then have "eliminate_below n j row_offset M = M"
    by (intro eliminate_below_noop) (simp add: find_upt_None)
  with None ok off show ?thesis by (simp add: eliminate_column_def)
next
  case (Some p)
  note p = find_upt_Some [OF Some]
  let ?M1 = "swap_rows p row_offset M"
  have pl: "p < length M" "row_offset < length M" using p n by simp_all
  have ok1: "rows_ok L ?M1" using ok pl by (rule rows_ok_swap_rows)
  have li1: "li V ?M1 \<longleftrightarrow> li V M" using ok V pl by (rule li_swap_rows)
  have "length (eliminate_below n j (row_offset + 1) ?M1) = length ?M1 \<and>
         rows_ok L (eliminate_below n j (row_offset + 1) ?M1) \<and>
         (li V (eliminate_below n j (row_offset + 1) ?M1) \<longleftrightarrow> li V ?M1)"
    using ok1 V pl n by (intro eliminate_below_li) (simp_all add: length_swap_rows)
  with Some li1 pl n show ?thesis by (simp add: eliminate_column_def length_swap_rows)
qed

lemma eliminate_fold_li:
  assumes ok: "rows_ok L M" and V: "V \<le> L" and n: "n = length M"
  shows "case fold (eliminate_column n) [0..<m] (0, M) of (off', M') \<Rightarrow>
           length M' = length M \<and> rows_ok L M' \<and> off' \<le> n \<and> (li V M' \<longleftrightarrow> li V M)"
proof -
  let ?P = "\<lambda>(j::nat) st. case st of (off', M') \<Rightarrow>
           length M' = length M \<and> rows_ok L M' \<and> off' \<le> n \<and> (li V M' \<longleftrightarrow> li V M)"
  show ?thesis
  proof (rule fold_upt_invariant [where P = ?P])
    show "?P 0 (0, M)" using ok by simp
  next
    fix k st assume P: "?P k st"
    obtain off' M' where st: "st = (off', M')" by (cases st)
    from P st have 1: "length M' = length M" "rows_ok L M'" "off' \<le> n" "li V M' \<longleftrightarrow> li V M" by auto
    from eliminate_column_li [OF 1(2) V 1(3), of k] 1 n
    show "?P (Suc k) (eliminate_column n k st)" unfolding st by (auto split: prod.splits)
  qed simp
qed

section \<open>Leading entries and echelon form\<close>

lemma lead_le: "lead r \<le> length r"
  by (simp add: lead_def length_takeWhile_le)

lemma lead_before: "c < lead r \<Longrightarrow> \<not> r ! c"
  unfolding lead_def using nth_mem set_takeWhileD takeWhile_nth by (metis (mono_tags, lifting))

lemma lead_at: "lead r < length r \<Longrightarrow> r ! lead r"
  unfolding lead_def using nth_length_takeWhile by blast

lemma lead_geI: "j \<le> length r \<Longrightarrow> (\<And>c. c < j \<Longrightarrow> \<not> r ! c) \<Longrightarrow> j \<le> lead r"
  by (metis lead_at not_le_imp_less order_less_le_trans)

lemma lead_eqI: "j < length r \<Longrightarrow> (\<And>c. c < j \<Longrightarrow> \<not> r ! c) \<Longrightarrow> r ! j \<Longrightarrow> lead r = j"
  by (metis lead_before lead_geI less_or_eq_imp_le linorder_neqE_nat not_less)

lemma echelon_column:
  assumes ok: "rows_ok L M" and n: "n = length M" and off: "off \<le> n" and j: "j < L"
    and ech: "echelon n j off M"
  shows "case eliminate_column n j (off, M) of (off', M') \<Rightarrow> echelon n (Suc j) off' M'"
proof -
  from ech have e1: "\<And>i. i < off \<Longrightarrow> lead (M ! i) < j"
    and e2: "\<And>i i'. i < i' \<Longrightarrow> i' < off \<Longrightarrow> lead (M ! i) < lead (M ! i')"
    and e3: "\<And>k. off \<le> k \<Longrightarrow> k < n \<Longrightarrow> j \<le> lead (M ! k)"
    by (auto simp: echelon_def)
  from ok n have w: "\<And>r. r < n \<Longrightarrow> length (M ! r) = L" by (simp add: rows_ok_def)
  show ?thesis
  proof (cases "find (\<lambda>k. M ! k ! j) [off..<n]")
    case None
    then have none: "\<And>k. off \<le> k \<Longrightarrow> k < n \<Longrightarrow> \<not> M ! k ! j" by (auto simp: find_upt_None)
    then have el: "eliminate_below n j off M = M"
      by (intro eliminate_below_noop) auto
    have "Suc j \<le> lead (M ! k)" if "off \<le> k" "k < n" for k
      using e3 [OF that] none [OF that] lead_at [of "M ! k"] w [OF that(2)] j
      by (cases "lead (M ! k) = j") auto
    then have "echelon n (Suc j) off M"
      unfolding echelon_def using e1 e2 by (auto intro: less_SucI)
    with None el show ?thesis by (simp add: eliminate_column_def)
  next
    case (Some p)
    note p = find_upt_Some [OF Some]
    let ?M1 = "swap_rows p off M"
    have pl: "p < length M" "off < length M" using p n by simp_all
    have m1: "\<And>r. r < n \<Longrightarrow> ?M1 ! r = (if r = off then M ! p else if r = p then M ! off else M ! r)"
      using pl n by (simp add: nth_swap_rows)
    have w1: "\<And>r. r < n \<Longrightarrow> length (?M1 ! r) = L"
      using m1 w p pl n by auto
    have lp: "lead (M ! p) = j"
      by (rule lead_eqI) (use p w [of p] j e3 [of p] lead_before [of _ "M ! p"] in auto)
    have g1: "j \<le> lead (?M1 ! r)" if "off \<le> r" "r < n" for r
      using that m1 [OF that(2)] e3 [of r] e3 [of p] e3 [of off] p pl n by auto
    have piv: "?M1 ! off ! j" using m1 [of off] p pl n by simp
    let ?M2 = "eliminate_below n j (off + 1) ?M1"
    from eliminate_below_shape [of "off + 1" n ?M1 j] pl n
    have len2: "length ?M2 = length M"
      and m2: "\<And>r. r < n \<Longrightarrow> ?M2 ! r =
            (if off + 1 \<le> r \<and> r < n \<and> ?M1 ! r ! j \<and> ?M1 ! off ! j
             then xor_vectors (?M1 ! r) (?M1 ! off) else ?M1 ! r)"
      by (simp_all add: length_swap_rows)
    have low: "?M2 ! i = M ! i" if "i < off" for i
      using that m2 [of i] m1 [of i] p(1) pl n by simp
    have mid: "?M2 ! off = M ! p"
      using m2 [of off] m1 [of off] pl n by simp
    have high: "Suc j \<le> lead (?M2 ! r)" if r: "off + 1 \<le> r" "r < n" for r
    proof (cases "?M1 ! r ! j")
      case True
      with m2 [OF r(2)] r piv have e: "?M2 ! r = xor_vectors (?M1 ! r) (?M1 ! off)" by simp
      have lr: "length (?M1 ! r) = L" "length (?M1 ! off) = L" using w1 r pl n by simp_all
      show ?thesis
      proof (rule lead_geI)
        show "Suc j \<le> length (?M2 ! r)" using e lr j by (simp add: length_xor_vectors)
      next
        fix c assume c: "c < Suc j"
        have "\<not> ?M1 ! r ! c" if "c < j"
          using that g1 [of r] r lead_before [of c "?M1 ! r"] by simp
        moreover have "\<not> ?M1 ! off ! c" if "c < j"
          using that g1 [of off] pl n lead_before [of c "?M1 ! off"] by simp
        ultimately show "\<not> ?M2 ! r ! c"
          using c e lr j True piv by (cases "c = j") (simp_all add: nth_xor_vectors)
      qed
    next
      case False
      with m2 [OF r(2)] have e: "?M2 ! r = ?M1 ! r" by simp
      from g1 [of r] r False lead_at [of "?M1 ! r"] w1 [OF r(2)] j
      show ?thesis unfolding e by (cases "lead (?M1 ! r) = j") auto
    qed
    have "echelon n (Suc j) (off + 1) ?M2"
      unfolding echelon_def
    proof (intro conjI allI impI)
      fix i assume "i < off + 1"
      then show "lead (?M2 ! i) < Suc j"
        using low [of i] mid e1 [of i] lp by (cases "i = off") auto
    next
      fix i i' assume "i < i' \<and> i' < off + 1"
      then show "lead (?M2 ! i) < lead (?M2 ! i')"
        using low [of i] low [of i'] mid e1 [of i] e2 [of i i'] lp by (cases "i' = off") auto
    next
      fix k assume "off + 1 \<le> k \<and> k < n"
      then show "Suc j \<le> lead (?M2 ! k)" using high by simp
    qed
    with Some show ?thesis by (simp add: eliminate_column_def)
  qed
qed

lemma echelon_fold:
  assumes ok: "rows_ok L M" and n: "n = length M" and m: "m \<le> L"
  shows "case fold (eliminate_column n) [0..<m] (0, M) of (off', M') \<Rightarrow>
           length M' = length M \<and> rows_ok L M' \<and> off' \<le> n \<and> echelon n m off' M'"
proof -
  let ?P = "\<lambda>j st. case st of (off', M') \<Rightarrow>
           length M' = length M \<and> rows_ok L M' \<and> off' \<le> n \<and> echelon n j off' M'"
  show ?thesis
  proof (rule fold_upt_invariant [where P = ?P])
    show "?P 0 (0, M)" using ok by (simp add: echelon_def)
  next
    fix k st assume k: "k < m" and P: "?P k st"
    obtain off' M' where st: "st = (off', M')" by (cases st)
    from P st have 1: "length M' = length M" "rows_ok L M'" "off' \<le> n" "echelon n k off' M'" by auto
    have n': "n = length M'" using 1 n by simp
    have kL: "k < L" using k m by simp
    from eliminate_column_li [OF 1(2) le_refl 1(3) n', of k] echelon_column [OF 1(2) n' 1(3) kL 1(4)] 1(1)
    show "?P (Suc k) (eliminate_column n k st)" unfolding st by (auto split: prod.splits)
  qed simp
qed

text \<open>Rows in echelon form, with their leading entries among the first \<open>V\<close> columns, are
  independent on these columns.\<close>

lemma echelon_lin_indep:
  assumes ok: "rows_ok L M" and V: "V \<le> L"
    and ld: "\<And>i. i < length M \<Longrightarrow> lead (M ! i) < V"
    and inc: "\<And>i i'. i < i' \<Longrightarrow> i' < length M \<Longrightarrow> lead (M ! i) < lead (M ! i')"
  shows "li V M"
  unfolding li_def
proof (rule lin_indepI)
  fix sel i
  assume sel: "length sel = length (map (take V) M)"
    and z: "comb V sel (map (take V) M) = replicate V False"
    and i: "i < length (map (take V) M)"
  let ?n = "length M"
  show "\<not> sel ! i"
  proof
    assume si: "sel ! i"
    define i0 where "i0 = (LEAST k. k < ?n \<and> sel ! k)"
    from i si have ex: "i < ?n \<and> sel ! i" by simp
    from LeastI [of "\<lambda>k. k < ?n \<and> sel ! k", OF ex] have i0: "i0 < ?n" "sel ! i0"
      by (simp_all add: i0_def)
    have least: "\<not> sel ! k" if "k < i0" for k
      using not_less_Least [of k "\<lambda>k. k < ?n \<and> sel ! k"] that i0(1) by (auto simp: i0_def)
    let ?c = "lead (M ! i0)"
    have c: "?c < V" using ld i0 by simp
    have wl: "\<And>r. r < ?n \<Longrightarrow> length (M ! r) = L" using ok by (simp add: rows_ok_def)
    have "xor_sum ?n (\<lambda>k. sel ! k \<and> map (take V) M ! k ! ?c) = (sel ! i0 \<and> map (take V) M ! i0 ! ?c)"
    proof (rule xor_sum_first)
      fix k assume "k < i0"
      then show "\<not> (sel ! k \<and> map (take V) M ! k ! ?c)" using least by simp
    next
      fix k assume k: "i0 < k" "k < ?n"
      from inc [OF k] have "?c < lead (M ! k)" .
      then have "\<not> M ! k ! ?c" by (rule lead_before)
      then show "\<not> (sel ! k \<and> map (take V) M ! k ! ?c)" using k c by simp
    qed (rule i0)
    moreover have "M ! i0 ! ?c"
      using lead_at [of "M ! i0"] wl [OF i0(1)] c V by simp
    ultimately have "xor_sum ?n (\<lambda>k. sel ! k \<and> map (take V) M ! k ! ?c)"
      using i0 c by simp
    moreover from z have "\<not> xor_sum (length (map (take V) M)) (\<lambda>k. sel ! k \<and> map (take V) M ! k ! ?c)"
      using c by (simp add: comb_zero_iff)
    ultimately show False by simp
  qed
qed

section \<open>Spans and independence\<close>

lemma comb_injective:
  assumes li: "lin_indep V M" and l1: "length s1 = length M" and l2: "length s2 = length M"
    and eq: "comb V s1 M = comb V s2 M"
  shows "s1 = s2"
proof -
  let ?d = "map2 (\<lambda>a b. a \<noteq> b) s1 s2"
  have ld: "length ?d = length M" using l1 l2 by simp
  have "comb V ?d M = replicate V False"
    unfolding comb_zero_iff
  proof (intro allI impI)
    fix c assume c: "c < V"
    have "xor_sum (length M) (\<lambda>i. ?d ! i \<and> M ! i ! c)
        = xor_sum (length M) (\<lambda>i. (s1 ! i \<and> M ! i ! c) \<noteq> (s2 ! i \<and> M ! i ! c))"
      by (rule xor_sum_cong) (use l1 l2 in auto)
    also have "\<dots> = (comb V s1 M ! c \<noteq> comb V s2 M ! c)"
      by (simp only: xor_sum_xor nth_comb [OF c])
    finally show "\<not> xor_sum (length M) (\<lambda>i. ?d ! i \<and> M ! i ! c)" using eq by simp
  qed
  then have "\<And>i. i < length M \<Longrightarrow> \<not> ?d ! i" by (rule lin_indepD [OF li ld])
  then show ?thesis using l1 l2 by (auto simp: list_eq_iff_nth_eq)
qed

lemma xor_sum_append_one:
  assumes "length sel = length M"
  shows "xor_sum (length (M @ [r])) (\<lambda>i. (sel @ [b]) ! i \<and> (M @ [r]) ! i ! c)
       = (xor_sum (length M) (\<lambda>i. sel ! i \<and> M ! i ! c) \<noteq> (b \<and> r ! c))"
proof -
  have "xor_sum (length M) (\<lambda>i. (sel @ [b]) ! i \<and> (M @ [r]) ! i ! c)
      = xor_sum (length M) (\<lambda>i. sel ! i \<and> M ! i ! c)"
    by (rule xor_sum_cong) (use assms in \<open>simp add: nth_append\<close>)
  then show ?thesis using assms by (simp add: nth_append)
qed

lemma lin_indep_snoc:
  assumes r: "length r = V"
  shows "lin_indep V (M @ [r]) \<longleftrightarrow> lin_indep V M \<and> \<not> in_span V M r"
proof (intro iffI conjI)
  assume li: "lin_indep V (M @ [r])"
  show "lin_indep V M"
  proof (rule lin_indepI)
    fix sel i assume sel: "length sel = length M" and z: "comb V sel M = replicate V False" and i: "i < length M"
    have "comb V (sel @ [False]) (M @ [r]) = replicate V False"
      unfolding comb_zero_iff xor_sum_append_one [OF sel] using z by (simp add: comb_zero_iff)
    then have "\<not> (sel @ [False]) ! i"
      by (rule lin_indepD [OF li, rotated]) (use sel i in simp_all)
    then show "\<not> sel ! i" using sel i by (simp add: nth_append)
  qed
  show "\<not> in_span V M r"
  proof
    assume "in_span V M r"
    then obtain sel where sel: "length sel = length M" and c: "comb V sel M = r"
      by (auto simp: in_span_iff)
    have "comb V (sel @ [True]) (M @ [r]) = replicate V False"
      unfolding comb_zero_iff xor_sum_append_one [OF sel]
      using c by (auto simp: nth_comb [symmetric])
    then have "\<not> (sel @ [True]) ! length M"
      by (rule lin_indepD [OF li, rotated]) (use sel in simp_all)
    then show False using sel by (simp add: nth_append)
  qed
next
  assume a: "lin_indep V M \<and> \<not> in_span V M r"
  show "lin_indep V (M @ [r])"
  proof (rule lin_indepI)
    fix sel' i assume sel': "length sel' = length (M @ [r])"
      and z: "comb V sel' (M @ [r]) = replicate V False" and i: "i < length (M @ [r])"
    from sel' obtain sel b where s: "sel' = sel @ [b]" "length sel = length M"
      by (cases sel' rule: rev_cases) auto
    from z have z': "\<And>c. c < V \<Longrightarrow> xor_sum (length M) (\<lambda>i. sel ! i \<and> M ! i ! c) = (b \<and> r ! c)"
      unfolding s comb_zero_iff xor_sum_append_one [OF s(2)] by auto
    have nb: "\<not> b"
    proof
      assume b
      with z' have "comb V sel M = r"
        using r by (auto simp: list_eq_iff_nth_eq length_comb nth_comb)
      with s(2) a show False by (auto simp: in_span_iff)
    qed
    with z' have "comb V sel M = replicate V False" by (simp add: comb_zero_iff)
    with a s(2) have "\<And>i. i < length M \<Longrightarrow> \<not> sel ! i" by (intro lin_indepD [of V M sel]) simp_all
    then show "\<not> sel' ! i" using i nb s by (cases "i = length M") (auto simp: nth_append)
  qed
qed

lemma zero_row_dependent:
  assumes k: "k < length M" and z: "\<And>c. c < V \<Longrightarrow> \<not> M ! k ! c"
  shows "\<not> lin_indep V M"
proof
  assume li: "lin_indep V M"
  let ?sel = "(replicate (length M) False)[k := True]"
  have "comb V ?sel M = replicate V False"
    unfolding comb_zero_iff
  proof (intro allI impI)
    fix c assume c: "c < V"
    show "\<not> xor_sum (length M) (\<lambda>i. ?sel ! i \<and> M ! i ! c)"
      by (rule xor_sum_zero) (use z [OF c] k in \<open>auto simp: nth_list_update\<close>)
  qed
  then have "\<not> ?sel ! k" by (rule lin_indepD [OF li, rotated]) (use k in simp_all)
  then show False using k by simp
qed

lemma map_take_id: "rows_ok L M \<Longrightarrow> map (take L) M = M"
  by (auto simp: rows_ok_def list_eq_iff_nth_eq)

section \<open>The snapshot of independent\<close>

lemma snapshot_facts:
  assumes P: "rows_ok W P" and r: "length r = W" and T: "length Tp = length P"
  shows "length (snapshot P Tp r t) = length P + 1"
    and "rows_ok (W + 1) (snapshot P Tp r t)"
    and "map (take W) (snapshot P Tp r t) = P @ [r]"
proof -
  show "length (snapshot P Tp r t) = length P + 1" by (simp add: snapshot_def)
  show "rows_ok (W + 1) (snapshot P Tp r t)"
    using P r by (auto simp: rows_ok_def snapshot_def nth_append)
  have "map (take W) (map (\<lambda>i. P ! i @ [Tp ! i]) [0..<length P]) = P"
    by (rule nth_equalityI) (use P in \<open>simp_all add: rows_ok_def\<close>)
  then show "map (take W) (snapshot P Tp r t) = P @ [r]"
    using r unfolding snapshot_def by (simp del: map_map)
qed

lemma snapshot_coefficients_li:
  assumes P: "rows_ok W P" and r: "length r = W" and T: "length Tp = length P"
  shows "li W (snapshot P Tp r t) \<longleftrightarrow> lin_indep W P \<and> \<not> in_span W P r"
  unfolding li_def snapshot_facts(3) [OF assms] by (rule lin_indep_snoc [OF r])

lemma comb_snapshot_prefix:
  assumes P: "rows_ok W P" and T: "length Tp = length P" and sel: "length sel = length P"
  shows "comb (W + 1) sel (map (\<lambda>i. P ! i @ [Tp ! i]) [0..<length P]) = comb W sel P @ [dot sel Tp]"
proof (rule nth_equalityI)
  show "length (comb (W + 1) sel (map (\<lambda>i. P ! i @ [Tp ! i]) [0..<length P])) = length (comb W sel P @ [dot sel Tp])"
    by (simp add: length_comb)
next
  fix c assume "c < length (comb (W + 1) sel (map (\<lambda>i. P ! i @ [Tp ! i]) [0..<length P]))"
  then have c: "c < W + 1" by (simp add: length_comb)
  show "comb (W + 1) sel (map (\<lambda>i. P ! i @ [Tp ! i]) [0..<length P]) ! c = (comb W sel P @ [dot sel Tp]) ! c"
  proof (cases "c < W")
    case True
    have "xor_sum (length P) (\<lambda>i. sel ! i \<and> map (\<lambda>i. P ! i @ [Tp ! i]) [0..<length P] ! i ! c)
        = xor_sum (length P) (\<lambda>i. sel ! i \<and> P ! i ! c)"
      by (rule xor_sum_cong) (use P True in \<open>simp add: rows_ok_def nth_append\<close>)
    then show ?thesis using True c by (simp add: nth_comb nth_append length_comb)
  next
    case False
    with c have cW: "c = W" by simp
    have "xor_sum (length P) (\<lambda>i. sel ! i \<and> map (\<lambda>i. P ! i @ [Tp ! i]) [0..<length P] ! i ! W)
        = xor_sum (length P) (\<lambda>i. sel ! i \<and> Tp ! i)"
      by (rule xor_sum_cong) (use P in \<open>simp add: rows_ok_def nth_append\<close>)
    then show ?thesis using cW sel by (simp add: nth_comb nth_append length_comb dot_def)
  qed
qed

lemma snapshot_full_li:
  assumes P: "rows_ok W P" and r: "length r = W" and T: "length Tp = length P" and li: "lin_indep W P"
  shows "li (W + 1) (snapshot P Tp r t) \<longleftrightarrow>
           \<not> (\<exists>sel. length sel = length P \<and> comb W sel P = r \<and> dot sel Tp = t)"
proof -
  let ?A = "map (\<lambda>i. P ! i @ [Tp ! i]) [0..<length P]"
  have lA: "length ?A = length P" by simp
  have A: "lin_indep (W + 1) ?A"
  proof (rule lin_indepI)
    fix sel i assume sel: "length sel = length ?A" and z: "comb (W + 1) sel ?A = replicate (W + 1) False"
      and i: "i < length ?A"
    from sel have sl: "length sel = length P" by simp
    from z comb_snapshot_prefix [OF P T sl] have "comb W sel P @ [dot sel Tp] = replicate W False @ [False]"
      by (simp add: replicate_append_same)
    then have "comb W sel P = replicate W False" by simp
    with li sl show "\<not> sel ! i" by (rule lin_indepD) (use i in simp)
  qed
  have "map (take (W + 1)) (snapshot P Tp r t) = snapshot P Tp r t"
    by (rule map_take_id [OF snapshot_facts(2) [OF P r T]])
  then have "li (W + 1) (snapshot P Tp r t) \<longleftrightarrow> lin_indep (W + 1) (snapshot P Tp r t)"
    unfolding li_def by (simp only:)
  also have "\<dots> \<longleftrightarrow> lin_indep (W + 1) (?A @ [r @ [t]])"
    by (simp only: snapshot_def)
  also have "\<dots> \<longleftrightarrow> \<not> in_span (W + 1) ?A (r @ [t])"
    using A lin_indep_snoc [of "r @ [t]" "W + 1" ?A] r by simp
  also have "in_span (W + 1) ?A (r @ [t]) \<longleftrightarrow> (\<exists>sel. length sel = length P \<and> comb W sel P = r \<and> dot sel Tp = t)"
    unfolding in_span_iff lA
  proof (intro iffI; elim exE conjE)
    fix sel assume sl: "length sel = length P" and c: "comb (W + 1) sel ?A = r @ [t]"
    from c comb_snapshot_prefix [OF P T sl] have "comb W sel P @ [dot sel Tp] = r @ [t]" by simp
    with sl show "\<exists>sel. length sel = length P \<and> comb W sel P = r \<and> dot sel Tp = t" by auto
  next
    fix sel assume sl: "length sel = length P" and c: "comb W sel P = r" "dot sel Tp = t"
    with comb_snapshot_prefix [OF P T sl] have "comb (W + 1) sel ?A = r @ [t]" by simp
    with sl show "\<exists>sel. length sel = length P \<and> comb (W + 1) sel ?A = r @ [t]" by auto
  qed
  finally show ?thesis .
qed

section \<open>The three outcomes of independent\<close>

lemma zero_vector_iff: "zero_vector x \<longleftrightarrow> (\<forall>c<length x. \<not> x ! c)"
  by (simp add: zero_vector_def list_all_length)

lemma one_vector_iff: "length x = W + 1 \<Longrightarrow> one_vector x \<longleftrightarrow> (\<forall>c<W. \<not> x ! c) \<and> x ! W"
  by (cases x rule: rev_cases) (auto simp: one_vector_def list_all_length nth_append)

lemma eliminated_snapshot:
  assumes P: "rows_ok W P" and r: "length r = W" and T: "length Tp = length P"
  obtains off' M' where
    "fold (eliminate_column (length P + 1)) [0..<W + 1] (0, snapshot P Tp r t) = (off', M')"
    "length M' = length P + 1" "rows_ok (W + 1) M'" "off' \<le> length P + 1"
    "echelon (length P + 1) (W + 1) off' M'"
    "li W M' \<longleftrightarrow> li W (snapshot P Tp r t)"
    "li (W + 1) M' \<longleftrightarrow> li (W + 1) (snapshot P Tp r t)"
proof -
  let ?M0 = "snapshot P Tp r t"
  let ?n = "length P + 1"
  obtain off' M' where f: "fold (eliminate_column ?n) [0..<W + 1] (0, ?M0) = (off', M')"
    by (cases "fold (eliminate_column ?n) [0..<W + 1] (0, ?M0)")
  note sf = snapshot_facts [OF P r T, of t]
  have n: "?n = length ?M0" using sf(1) by simp
  from echelon_fold [OF sf(2) n le_refl] f
  have 1: "length M' = ?n" "rows_ok (W + 1) M'" "off' \<le> ?n" "echelon ?n (W + 1) off' M'"
    using sf(1) by auto
  from eliminate_fold_li [OF sf(2) _ n, of W "W + 1"] f
  have 2: "li W M' \<longleftrightarrow> li W ?M0" by auto
  from eliminate_fold_li [OF sf(2) le_refl n, of "W + 1"] f
  have 3: "li (W + 1) M' \<longleftrightarrow> li (W + 1) ?M0" by auto
  from f 1 2 3 show ?thesis by (rule that)
qed

lemma last_row_zero_or_all_pivots:
  assumes len: "length M' = n" and ok: "rows_ok L M'" and off: "off' \<le> n" and n: "0 < n"
    and ech: "echelon n L off' M'"
  shows "(\<forall>c<L. \<not> M' ! (n - 1) ! c) \<or>
         (off' = n \<and> (\<forall>i<n. lead (M' ! i) < L) \<and> (\<forall>i i'. i < i' \<and> i' < n \<longrightarrow> lead (M' ! i) < lead (M' ! i')))"
proof (cases "off' = n")
  case True
  with ech show ?thesis by (auto simp: echelon_def)
next
  case False
  with off n have "off' \<le> n - 1" "n - 1 < n" by simp_all
  with ech have "L \<le> lead (M' ! (n - 1))" by (auto simp: echelon_def)
  then have "\<forall>c<L. \<not> M' ! (n - 1) ! c" using lead_before [of _ "M' ! (n - 1)"] by auto
  then show ?thesis by simp
qed

lemma li_rows_nonzero: "li V M \<Longrightarrow> k < length M \<Longrightarrow> rows_ok L M \<Longrightarrow> V \<le> L \<Longrightarrow> \<exists>c<V. M ! k ! c"
proof (rule ccontr)
  assume a: "li V M" "k < length M" "rows_ok L M" "V \<le> L" and n: "\<not> (\<exists>c<V. M ! k ! c)"
  have "\<not> lin_indep V (map (take V) M)"
    by (rule zero_row_dependent [of k]) (use a n in \<open>auto simp: rows_ok_def\<close>)
  with a(1) show False by (simp add: li_def)
qed

lemma outcome_independent:
  assumes P: "rows_ok W P" and r: "length r = W" and T: "length Tp = length P" and li: "lin_indep W P"
    and f: "fold (eliminate_column (length P + 1)) [0..<W + 1] (0, snapshot P Tp r t) = (off', M')"
    and ns: "\<not> in_span W P r"
  shows "\<not> one_vector (M' ! length P) \<and> \<not> zero_vector (M' ! length P)"
proof -
  from eliminated_snapshot [OF P r T, of t] f
  have 1: "length M' = length P + 1" "rows_ok (W + 1) M'" "li W M' \<longleftrightarrow> li W (snapshot P Tp r t)"
    by auto
  from 1(3) snapshot_coefficients_li [OF P r T, of t] li ns have "li W M'" by simp
  from li_rows_nonzero [OF this, of "length P" "W + 1"] 1
  obtain c where c: "c < W" "M' ! length P ! c" by auto
  have lx: "length (M' ! length P) = W + 1" using 1 by (simp add: rows_ok_def)
  from c have "\<exists>c<Suc W. M' ! length P ! c" using less_SucI by blast
  with c lx show ?thesis by (auto simp: one_vector_iff [OF lx] zero_vector_iff)
qed

lemma outcome_redundant:
  assumes P: "rows_ok W P" and r: "length r = W" and T: "length Tp = length P" and li: "lin_indep W P"
    and f: "fold (eliminate_column (length P + 1)) [0..<W + 1] (0, snapshot P Tp r t) = (off', M')"
    and sp: "\<exists>sel. length sel = length P \<and> comb W sel P = r \<and> dot sel Tp = t"
  shows "\<not> one_vector (M' ! length P) \<and> zero_vector (M' ! length P)"
proof -
  let ?n = "length P + 1"
  from eliminated_snapshot [OF P r T, of t] f
  have 1: "length M' = ?n" "rows_ok (W + 1) M'" "off' \<le> ?n" "echelon ?n (W + 1) off' M'"
    "li (W + 1) M' \<longleftrightarrow> li (W + 1) (snapshot P Tp r t)"
    by auto
  from 1(5) snapshot_full_li [OF P r T li, of t] sp have nli: "\<not> li (W + 1) M'" by simp
  have lx: "length (M' ! length P) = W + 1" using 1 by (simp add: rows_ok_def)
  from last_row_zero_or_all_pivots [OF 1(1,2,3) _ 1(4)]
  have "(\<forall>c<W + 1. \<not> M' ! length P ! c) \<or>
         ((\<forall>i<?n. lead (M' ! i) < W + 1) \<and> (\<forall>i i'. i < i' \<and> i' < ?n \<longrightarrow> lead (M' ! i) < lead (M' ! i')))"
    by auto
  then have z: "\<forall>c<W + 1. \<not> M' ! length P ! c"
  proof
    assume "(\<forall>i<?n. lead (M' ! i) < W + 1) \<and> (\<forall>i i'. i < i' \<and> i' < ?n \<longrightarrow> lead (M' ! i) < lead (M' ! i'))"
    then have "li (W + 1) M'"
      using 1(1) by (intro echelon_lin_indep [OF 1(2) le_refl]) auto
    with nli show ?thesis by simp
  qed
  then show ?thesis using lx by (auto simp: one_vector_iff [OF lx] zero_vector_iff)
qed

lemma outcome_inconsistent:
  assumes P: "rows_ok W P" and r: "length r = W" and T: "length Tp = length P" and li: "lin_indep W P"
    and f: "fold (eliminate_column (length P + 1)) [0..<W + 1] (0, snapshot P Tp r t) = (off', M')"
    and ct: "\<exists>sel. length sel = length P \<and> comb W sel P = r \<and> dot sel Tp \<noteq> t"
  shows "one_vector (M' ! length P)"
proof -
  let ?n = "length P + 1"
  let ?x = "M' ! length P"
  from eliminated_snapshot [OF P r T, of t] f
  have 1: "length M' = ?n" "rows_ok (W + 1) M'" "off' \<le> ?n" "echelon ?n (W + 1) off' M'"
    "li W M' \<longleftrightarrow> li W (snapshot P Tp r t)"
    "li (W + 1) M' \<longleftrightarrow> li (W + 1) (snapshot P Tp r t)"
    by auto
  from ct obtain sel0 where s0: "length sel0 = length P" "comb W sel0 P = r" "dot sel0 Tp \<noteq> t" by blast
  have "\<not> (\<exists>sel. length sel = length P \<and> comb W sel P = r \<and> dot sel Tp = t)"
  proof
    assume "\<exists>sel. length sel = length P \<and> comb W sel P = r \<and> dot sel Tp = t"
    then obtain sel where s: "length sel = length P" "comb W sel P = r" "dot sel Tp = t" by blast
    from comb_injective [OF li s(1) s0(1)] s(2) s0(2) have "sel = sel0" by simp
    with s(3) s0(3) show False by simp
  qed
  with 1(6) snapshot_full_li [OF P r T li, of t] have full: "li (W + 1) M'" by simp
  from s0 have "in_span W P r" by (auto simp: in_span_iff)
  with 1(5) snapshot_coefficients_li [OF P r T, of t] have ncoef: "\<not> li W M'" by simp
  have lx: "length ?x = W + 1" using 1 by (simp add: rows_ok_def)
  from li_rows_nonzero [OF full, of "length P" "W + 1"] 1 obtain c where c: "c < W + 1" "?x ! c" by auto
  from last_row_zero_or_all_pivots [OF 1(1,2,3) _ 1(4)] c
  have ld: "\<And>i. i < ?n \<Longrightarrow> lead (M' ! i) < W + 1"
    and inc: "\<And>i i'. i < i' \<Longrightarrow> i' < ?n \<Longrightarrow> lead (M' ! i) < lead (M' ! i')"
    by auto
  have "\<not> lead ?x < W"
  proof
    assume lw: "lead ?x < W"
    have "lead (M' ! i) < W" if "i < ?n" for i
      using inc [of i "length P"] that lw by (cases "i = length P") auto
    then have "li W M'"
      using 1(1) inc by (intro echelon_lin_indep [OF 1(2)]) auto
    with ncoef show False by simp
  qed
  with ld [of "length P"] have "lead ?x = W" by simp
  then have "(\<forall>c<W. \<not> ?x ! c) \<and> ?x ! W"
    using lead_before [of _ ?x] lead_at [of ?x] lx by auto
  then show ?thesis by (simp add: one_vector_iff [OF lx])
qed

section \<open>Dimension\<close>

lemma card_bool_lists: "card {xs :: bool list. length xs = n} = 2 ^ n"
  using card_lists_length_eq [of "UNIV :: bool set" n] by simp

lemma finite_bool_lists: "finite {xs :: bool list. length xs = n}"
  using finite_lists_length_eq [of "UNIV :: bool set" n] by simp

lemma lin_indep_length_le:
  assumes li: "lin_indep V M"
  shows "length M \<le> V"
proof -
  let ?A = "{s :: bool list. length s = length M}"
  let ?B = "{v :: bool list. length v = V}"
  have inj: "inj_on (\<lambda>s. comb V s M) ?A"
    by (rule inj_onI) (use comb_injective [OF li] in auto)
  have sub: "(\<lambda>s. comb V s M) ` ?A \<subseteq> ?B" by (auto simp: length_comb)
  from card_inj_on_le [OF inj sub finite_bool_lists]
  have "(2::nat) ^ length M \<le> 2 ^ V" by (simp add: card_bool_lists)
  then show ?thesis by simp
qed

section \<open>addRow on a solver whose independent rows are independent\<close>

lemma take_swap_last:
  assumes "ir \<le> length xs"
  shows "take (Suc ir) (swap_rows ir (length xs) (xs @ [x])) = take ir xs @ [x]"
proof (rule nth_equalityI)
  show "length (take (Suc ir) (swap_rows ir (length xs) (xs @ [x]))) = length (take ir xs @ [x])"
    using assms by (simp add: length_swap_rows)
next
  fix i assume "i < length (take (Suc ir) (swap_rows ir (length xs) (xs @ [x])))"
  then have i: "i < Suc ir" by simp
  show "take (Suc ir) (swap_rows ir (length xs) (xs @ [x])) ! i = (take ir xs @ [x]) ! i"
    using i assms by (auto simp: swap_rows_def nth_list_update nth_append less_Suc_eq)
qed

lemma rows_ok_prefix: "wf_solver W s \<Longrightarrow> rows_ok W (prefix_rows s)"
  by (auto simp: wf_solver_def rows_ok_def prefix_rows_def list_all_length)

lemma length_prefix: "wf_solver W s \<Longrightarrow> length (prefix_rows s) = independent_rows s"
  "wf_solver W s \<Longrightarrow> length (prefix_targets s) = independent_rows s"
  by (auto simp: wf_solver_def prefix_rows_def prefix_targets_def)

lemma content_copy_pushed:
  assumes wf: "wf_solver W s"
  shows "content_copy (s\<lparr>contents := contents s @ [row], targets := targets s @ [t]\<rparr>) (length (contents s))
       = snapshot (prefix_rows s) (prefix_targets s) row t"
proof -
  from wf have l: "length (targets s) = length (contents s)" "independent_rows s \<le> length (contents s)"
    by (simp_all add: wf_solver_def)
  have "map (\<lambda>i. (contents s @ [row]) ! i @ [(targets s @ [t]) ! i]) [0..<independent_rows s]
      = map (\<lambda>i. prefix_rows s ! i @ [prefix_targets s ! i]) [0..<independent_rows s]"
    by (rule map_cong [OF refl]) (use l in \<open>simp add: nth_append prefix_rows_def prefix_targets_def\<close>)
  then show ?thesis
    using l length_prefix(1) [OF wf] by (simp add: content_copy_def snapshot_def nth_append)
qed

lemma addRow_outcomes:
  assumes wf: "wf_solver W s" and li: "lin_indep W (prefix_rows s)" and row: "length row = W"
  shows "\<not> in_span W (prefix_rows s) row \<Longrightarrow> addRow W row t s = Inr (accepted row t s)"
    and "contradicts W (prefix_rows s) (prefix_targets s) row t \<Longrightarrow>
           addRow W row t s = Inl (Invalid_equation, pushed row t s)"
    and "in_span W (prefix_rows s) row \<Longrightarrow> \<not> contradicts W (prefix_rows s) (prefix_targets s) row t \<Longrightarrow>
           addRow W row t s = Inr (pushed row t s)"
proof -
  let ?P = "prefix_rows s" and ?T = "prefix_targets s"
  let ?s1 = "s\<lparr>contents := contents s @ [row], targets := targets s @ [t]\<rparr>"
  note P = rows_ok_prefix [OF wf]
  note lp = length_prefix [OF wf]
  have T: "length ?T = length ?P" using lp by simp
  obtain off' M' where f: "fold (eliminate_column (length ?P + 1)) [0..<W + 1] (0, snapshot ?P ?T row t) = (off', M')"
    by (cases "fold (eliminate_column (length ?P + 1)) [0..<W + 1] (0, snapshot ?P ?T row t)")
  have ind: "independent W ?s1 (length (contents s)) =
       (if one_vector (M' ! independent_rows s) then Inl Invalid_equation
        else Inr (\<not> zero_vector (M' ! independent_rows s)))"
    using f content_copy_pushed [OF wf, where row = row and t = t] lp(1) by (simp add: independent_def)
  {
    assume "\<not> in_span W ?P row"
    from outcome_independent [OF P row T li f this] lp(1)
    have "independent W ?s1 (length (contents s)) = Inr True" by (simp add: ind)
    then show "addRow W row t s = Inr (accepted row t s)"
      by (simp add: addRow_def Let_def accepted_def)
  }
  {
    assume "contradicts W ?P ?T row t"
    then have "\<exists>sel. length sel = length ?P \<and> comb W sel ?P = row \<and> dot sel ?T \<noteq> t"
      by (simp add: contradicts_iff)
    from outcome_inconsistent [OF P row T li f this] lp(1)
    have "independent W ?s1 (length (contents s)) = Inl Invalid_equation" by (simp add: ind)
    then show "addRow W row t s = Inl (Invalid_equation, pushed row t s)"
      by (simp add: addRow_def Let_def pushed_def)
  }
  {
    assume "in_span W ?P row" "\<not> contradicts W ?P ?T row t"
    then have "\<exists>sel. length sel = length ?P \<and> comb W sel ?P = row \<and> dot sel ?T = t"
      by (auto simp: contradicts_iff in_span_iff)
    from outcome_redundant [OF P row T li f this] lp(1)
    have "independent W ?s1 (length (contents s)) = Inr False" by (simp add: ind)
    then show "addRow W row t s = Inr (pushed row t s)"
      by (simp add: addRow_def Let_def pushed_def)
  }
qed

lemma contradicts_in_span: "contradicts W P T row t \<Longrightarrow> in_span W P row"
  by (auto simp: contradicts_iff in_span_iff)

text \<open>
  C4. On a solver whose independent rows are independent, \<^verbatim>\<open>addRow\<close> throws exactly when
  the new coefficient row is the sum of some of the independent rows while the new target is
  not the sum of their targets; the error is then "Invalid equation" and the rank is unchanged.
\<close>

theorem addRow_inconsistent_iff:
  assumes "wf_solver Width s" and "lin_indep Width (prefix_rows s)" and "length row = Width"
  shows "((\<exists>s'. addRow Width row t s = Inl (Invalid_equation, s')) \<longleftrightarrow>
            contradicts Width (prefix_rows s) (prefix_targets s) row t) \<and>
         (\<forall>e s'. addRow Width row t s = Inl (e, s') \<longrightarrow>
            e = Invalid_equation \<and> getIndependent s' = getIndependent s)"
proof -
  note o = addRow_outcomes [OF assms, of t]
  consider (A) "\<not> in_span Width (prefix_rows s) row"
    | (B) "contradicts Width (prefix_rows s) (prefix_targets s) row t"
    | (C) "in_span Width (prefix_rows s) row" "\<not> contradicts Width (prefix_rows s) (prefix_targets s) row t"
    by blast
  then show ?thesis
  proof cases
    case A
    with o(1) contradicts_in_span [of Width "prefix_rows s" "prefix_targets s" row t]
    show ?thesis by auto
  next
    case B
    with o(2) show ?thesis by (auto simp: getIndependent_def pushed_def)
  next
    case C
    with o(3) show ?thesis by auto
  qed
qed

section \<open>The invariant of the solver\<close>

lemma wf_pushed: "wf_solver W s \<Longrightarrow> length row = W \<Longrightarrow> wf_solver W (pushed row t s)"
  by (auto simp: wf_solver_def pushed_def)

lemma prefix_pushed:
  "wf_solver W s \<Longrightarrow> prefix_rows (pushed row t s) = prefix_rows s"
  "wf_solver W s \<Longrightarrow> prefix_targets (pushed row t s) = prefix_targets s"
  by (auto simp: wf_solver_def pushed_def prefix_rows_def prefix_targets_def)

lemma wf_accepted: "wf_solver W s \<Longrightarrow> length row = W \<Longrightarrow> wf_solver W (accepted row t s)"
  unfolding wf_solver_def accepted_def list_all_length
  by (auto simp: length_swap_rows nth_swap_rows nth_append)

lemma prefix_accepted:
  "wf_solver W s \<Longrightarrow> prefix_rows (accepted row t s) = prefix_rows s @ [row]"
  "wf_solver W s \<Longrightarrow> prefix_targets (accepted row t s) = prefix_targets s @ [t]"
  using take_swap_last [of "independent_rows s" "contents s" row]
    take_swap_last [of "independent_rows s" "targets s" t]
  by (auto simp: wf_solver_def accepted_def prefix_rows_def prefix_targets_def)

lemma solver_inv_init: "solver_inv W MatrixSolver"
  by (simp add: solver_inv_def wf_solver_def MatrixSolver_def prefix_rows_def lin_indep_def comb_def)

lemma solver_inv_rank: "solver_inv W s \<Longrightarrow> independent_rows s \<le> W"
  using lin_indep_length_le [of W "prefix_rows s"] length_prefix(1) [of W s]
  by (simp add: solver_inv_def)

lemma solver_inv_after:
  assumes inv: "solver_inv W s" and row: "length (fst eq) = W"
  shows "solver_inv W (after_addRow W eq s) \<and> independent_rows s \<le> independent_rows (after_addRow W eq s)"
proof -
  from inv have wf: "wf_solver W s" and li: "lin_indep W (prefix_rows s)" by (simp_all add: solver_inv_def)
  note o = addRow_outcomes [OF wf li row, of "snd eq"]
  consider (A) "\<not> in_span W (prefix_rows s) (fst eq)"
    | (B) "contradicts W (prefix_rows s) (prefix_targets s) (fst eq) (snd eq)"
    | (C) "in_span W (prefix_rows s) (fst eq)" "\<not> contradicts W (prefix_rows s) (prefix_targets s) (fst eq) (snd eq)"
    by blast
  then show ?thesis
  proof cases
    case A
    with o(1) have a: "after_addRow W eq s = accepted (fst eq) (snd eq) s" by (simp add: after_addRow_def)
    have "lin_indep W (prefix_rows s @ [fst eq])" using li A row by (simp add: lin_indep_snoc)
    then show ?thesis
      unfolding a solver_inv_def using wf_accepted [OF wf row] prefix_accepted(1) [OF wf]
      by (simp add: accepted_def)
  next
    case B
    with o(2) have a: "after_addRow W eq s = pushed (fst eq) (snd eq) s" by (simp add: after_addRow_def)
    show ?thesis
      unfolding a solver_inv_def using wf_pushed [OF wf row] prefix_pushed(1) [OF wf] li
      by (simp add: pushed_def)
  next
    case C
    with o(3) have a: "after_addRow W eq s = pushed (fst eq) (snd eq) s" by (simp add: after_addRow_def)
    show ?thesis
      unfolding a solver_inv_def using wf_pushed [OF wf row] prefix_pushed(1) [OF wf] li
      by (simp add: pushed_def)
  qed
qed

lemma trace_invariant:
  assumes "solver_inv W s" "\<forall>eq\<in>set eqs. length (fst eq) = W"
  shows "(\<forall>s'\<in>set (trace W s eqs). solver_inv W s' \<and> independent_rows s \<le> independent_rows s') \<and>
         sorted (map getIndependent (s # trace W s eqs))"
  using assms
proof (induction eqs arbitrary: s)
  case Nil
  show ?case by simp
next
  case (Cons eq eqs)
  let ?s1 = "after_addRow W eq s"
  from solver_inv_after [OF Cons.prems(1), of eq] Cons.prems(2)
  have 1: "solver_inv W ?s1" "independent_rows s \<le> independent_rows ?s1" by simp_all
  from Cons.IH [OF 1(1)] Cons.prems(2)
  have IH: "\<forall>s'\<in>set (trace W ?s1 eqs). solver_inv W s' \<and> independent_rows ?s1 \<le> independent_rows s'"
    "sorted (map getIndependent (?s1 # trace W ?s1 eqs))" by simp_all
  from IH(1) 1 have a: "\<forall>s'\<in>set (trace W s (eq # eqs)). solver_inv W s' \<and> independent_rows s \<le> independent_rows s'"
    by auto
  then have "\<forall>s'\<in>set (trace W s (eq # eqs)). getIndependent s \<le> getIndependent s'"
    by (simp add: getIndependent_def)
  with IH(2) have "sorted (map getIndependent (s # trace W s (eq # eqs)))" by simp
  with a show ?case by blast
qed

text \<open>
  C5. From a new solver, after any sequence of calls of \<^verbatim>\<open>addRow\<close> (rows of width
  \<open>Width\<close>; calls that throw included, with the solver as the exception leaves it), in every
  solver passed through the first \<^verbatim>\<open>getIndependent()\<close> rows are independent and the rank
  is at most \<open>Width\<close>; along the sequence the rank never decreases.
\<close>

theorem rank_invariant:
  assumes "\<forall>eq\<in>set eqs. length (fst eq) = Width"
  shows "(\<forall>s\<in>set (MatrixSolver # trace Width MatrixSolver eqs).
            lin_indep Width (prefix_rows s) \<and> getIndependent s \<le> Width) \<and>
         sorted (map getIndependent (MatrixSolver # trace Width MatrixSolver eqs))"
proof -
  from trace_invariant [OF solver_inv_init assms]
  have 1: "\<forall>s'\<in>set (trace Width MatrixSolver eqs). solver_inv Width s'"
    and 2: "sorted (map getIndependent (MatrixSolver # trace Width MatrixSolver eqs))" by auto
  from 1 solver_inv_init [of Width]
  have "\<forall>s\<in>set (MatrixSolver # trace Width MatrixSolver eqs). solver_inv Width s" by simp
  then have "\<forall>s\<in>set (MatrixSolver # trace Width MatrixSolver eqs).
            lin_indep Width (prefix_rows s) \<and> getIndependent s \<le> Width"
    using solver_inv_rank by (auto simp: solver_inv_def getIndependent_def)
  with 2 show ?thesis by blast
qed

section \<open>gaussianEliminate on independent rows\<close>

lemma dot_xor_vectors:
  assumes l: "length a = length b"
  shows "dot (xor_vectors a b) x = (dot a x \<noteq> dot b x)"
proof -
  have "dot (xor_vectors a b) x = xor_sum (length a) (\<lambda>i. xor_vectors a b ! i \<and> x ! i)"
    by (simp add: dot_def length_xor_vectors l)
  also have "\<dots> = xor_sum (length a) (\<lambda>i. (a ! i \<and> x ! i) \<noteq> (b ! i \<and> x ! i))"
    by (rule xor_sum_cong) (use l in \<open>auto simp: nth_xor_vectors\<close>)
  also have "\<dots> = (xor_sum (length a) (\<lambda>i. a ! i \<and> x ! i) \<noteq> xor_sum (length a) (\<lambda>i. b ! i \<and> x ! i))"
    by (rule xor_sum_xor)
  also have "\<dots> = (dot a x \<noteq> dot b x)"
    by (simp only: dot_def l)
  finally show ?thesis .
qed

lemma xor_sum_shift: "xor_sum (i + m) f = (xor_sum i f \<noteq> xor_sum m (\<lambda>k. f (i + k)))"
  by (induction m) auto

lemma lin_indep_butlast: "lin_indep V (M @ [r]) \<Longrightarrow> lin_indep V M"
proof (rule lin_indepI)
  fix sel i assume li: "lin_indep V (M @ [r])"
    and sel: "length sel = length M" and z: "comb V sel M = replicate V False" and i: "i < length M"
  have "comb V (sel @ [False]) (M @ [r]) = replicate V False"
    unfolding comb_zero_iff xor_sum_append_one [OF sel] using z by (simp add: comb_zero_iff)
  then have "\<not> (sel @ [False]) ! i"
    by (rule lin_indepD [OF li, rotated]) (use sel i in simp_all)
  then show "\<not> sel ! i" using sel i by (simp add: nth_append)
qed

lemma lin_indep_prefix: "lin_indep V (xs @ ys) \<Longrightarrow> lin_indep V xs"
proof (induction ys rule: rev_induct)
  case Nil
  then show ?case by simp
next
  case (snoc y ys)
  from snoc.prems have "lin_indep V ((xs @ ys) @ [y])" by simp
  then have "lin_indep V (xs @ ys)" by (rule lin_indep_butlast)
  then show ?case by (rule snoc.IH)
qed

text \<open>In a square matrix with independent rows, whose columns before \<open>i\<close> are zero below the
  diagonal, some row from \<open>i\<close> on has an entry in column \<open>i\<close>.\<close>

lemma pivot_exists:
  assumes li: "lin_indep W C" and ok: "rows_ok W C" and len: "length C = W" and i: "i < W"
    and bz: "below_zero i W C"
  shows "\<exists>j. i \<le> j \<and> j < W \<and> C ! j ! i"
proof (rule ccontr)
  assume no: "\<not> (\<exists>j. i \<le> j \<and> j < W \<and> C ! j ! i)"
  have z: "\<not> C ! k ! c" if "i \<le> k" "k < W" "c \<le> i" for k c
    using that no bz by (cases "c = i") (auto simp: below_zero_def)
  let ?m = "W - i"
  let ?D = "map (drop (Suc i)) (drop i C)"
  have lD: "length ?D = ?m" using len by simp
  have "lin_indep (W - Suc i) ?D"
  proof (rule lin_indepI)
    fix sel k assume sel: "length sel = length ?D" and zc: "comb (W - Suc i) sel ?D = replicate (W - Suc i) False"
      and k: "k < length ?D"
    let ?sel' = "replicate i False @ sel"
    have sl: "length ?sel' = length C" using sel lD len i by simp
    have "comb W ?sel' C = replicate W False"
      unfolding comb_zero_iff
    proof (intro allI impI)
      fix c assume c: "c < W"
      have "xor_sum (i + ?m) (\<lambda>k. ?sel' ! k \<and> C ! k ! c)
          = (xor_sum i (\<lambda>k. ?sel' ! k \<and> C ! k ! c) \<noteq> xor_sum ?m (\<lambda>k. ?sel' ! (i + k) \<and> C ! (i + k) ! c))"
        by (rule xor_sum_shift)
      moreover have "\<not> xor_sum i (\<lambda>k. ?sel' ! k \<and> C ! k ! c)"
        by (rule xor_sum_zero) (simp add: nth_append)
      moreover have "\<not> xor_sum ?m (\<lambda>k. ?sel' ! (i + k) \<and> C ! (i + k) ! c)"
      proof (cases "c \<le> i")
        case True
        show ?thesis by (rule xor_sum_zero) (use z True in auto)
      next
        case False
        then have c': "c - Suc i < W - Suc i" "Suc i + (c - Suc i) = c" using c by simp_all
        have "xor_sum ?m (\<lambda>k. ?sel' ! (i + k) \<and> C ! (i + k) ! c)
            = xor_sum (length ?D) (\<lambda>k. sel ! k \<and> ?D ! k ! (c - Suc i))"
          unfolding lD
        proof (rule xor_sum_cong)
          fix k assume k: "k < ?m"
          have "length (C ! (i + k)) = W" using ok k len by (simp add: rows_ok_def)
          then show "(?sel' ! (i + k) \<and> C ! (i + k) ! c) = (sel ! k \<and> ?D ! k ! (c - Suc i))"
            using k len c' c by (simp add: nth_append)
        qed
        with zc c'(1) show ?thesis by (simp add: comb_zero_iff)
      qed
      ultimately show "\<not> xor_sum (length C) (\<lambda>k. ?sel' ! k \<and> C ! k ! c)" using len i by simp
    qed
    then have "\<not> ?sel' ! (i + k)"
      by (rule lin_indepD [OF li sl]) (use k lD len in simp)
    then show "\<not> sel ! k" by (simp add: nth_append)
  qed
  from lin_indep_length_le [OF this] lD i show False by simp
qed

lemma solves_swap:
  assumes "p < length C" "i < length C" "length T = length C"
  shows "solves (swap_rows p i C) (swap_rows p i T) x \<longleftrightarrow> solves C T x"
proof
  assume s: "solves (swap_rows p i C) (swap_rows p i T) x"
  show "solves C T x"
    unfolding solves_def
  proof (intro allI impI)
    fix r assume r: "r < length C"
    let ?r' = "if r = p then i else if r = i then p else r"
    have "?r' < length C" using r assms by simp
    with s have "dot (swap_rows p i C ! ?r') x = swap_rows p i T ! ?r'"
      by (simp add: solves_def length_swap_rows)
    then show "dot (C ! r) x = T ! r"
      using r assms by (auto simp: nth_swap_rows split: if_splits)
  qed
next
  assume s: "solves C T x"
  then show "solves (swap_rows p i C) (swap_rows p i T) x"
    using assms by (auto simp: solves_def length_swap_rows nth_swap_rows)
qed

lemma gauss_eliminate_below_props:
  assumes ok: "rows_ok W C" and i: "i < n" and n: "n = length C" and T: "length T = length C"
  shows "case gauss_eliminate_below n i (C, T) of (C', T') \<Rightarrow>
           length C' = length C \<and> length T' = length T \<and> rows_ok W C' \<and>
           (lin_indep W C' \<longleftrightarrow> lin_indep W C) \<and> (\<forall>x. solves C' T' x \<longrightarrow> solves C T x)"
proof -
  let ?P = "\<lambda>(k::nat) CT. case CT of (C', T') \<Rightarrow>
           length C' = length C \<and> length T' = length T \<and> rows_ok W C' \<and>
           (lin_indep W C' \<longleftrightarrow> lin_indep W C) \<and> (\<forall>x. solves C' T' x \<longrightarrow> solves C T x)"
  let ?f = "\<lambda>j CT. case CT of (C, T) \<Rightarrow>
             if C ! j ! i then (C[j := xor_vectors (C ! j) (C ! i)], T[j := (T ! i \<noteq> T ! j)])
             else (C, T)"
  have "?P n (fold ?f [i + 1..<n] (C, T))"
  proof (rule fold_upt_invariant [where P = ?P])
    show "i + 1 \<le> n" using i by simp
    show "?P (i + 1) (C, T)" using ok by simp
  next
    fix k CT assume k: "i + 1 \<le> k" "k < n" and P: "?P k CT"
    obtain C' T' where CT: "CT = (C', T')" by (cases CT)
    from P CT have 1: "length C' = length C" "length T' = length T" "rows_ok W C'"
      "lin_indep W C' \<longleftrightarrow> lin_indep W C" "\<And>x. solves C' T' x \<Longrightarrow> solves C T x" by auto
    have kl: "k < length C'" "i < length C'" "k \<noteq> i" using k i n 1 by simp_all
    let ?C2 = "xor_row k i C'" and ?T2 = "T'[k := (T' ! i \<noteq> T' ! k)]"
    have sv: "solves C' T' x" if s2: "solves ?C2 ?T2 x" for x
      unfolding solves_def
    proof (intro allI impI)
      fix r assume r: "r < length C'"
      from s2 r have e: "dot (?C2 ! r) x = ?T2 ! r" by (simp add: solves_def length_xor_row)
      from s2 kl have ei: "dot (?C2 ! i) x = ?T2 ! i" by (simp add: solves_def length_xor_row)
      have li: "length (C' ! k) = length (C' ! i)" using 1(3) kl by (simp add: rows_ok_def)
      show "dot (C' ! r) x = T' ! r"
      proof (cases "r = k")
        case True
        from e ei kl 1 T show ?thesis
          unfolding True by (auto simp: xor_row_def dot_xor_vectors [OF li])
      next
        case False
        with e r show ?thesis by (simp add: xor_row_def)
      qed
    qed
    have "?P (Suc k) (?C2, ?T2)"
      using 1 sv lin_indep_xor_row [OF 1(3) kl] rows_ok_xor_row [OF 1(3) kl(1,2)]
      by (auto simp: length_xor_row)
    then show "?P (Suc k) (?f k CT)"
      unfolding CT using P CT by (auto simp: xor_row_def)
  qed
  then show ?thesis by (simp add: gauss_eliminate_below_def)
qed

lemma gauss_column_independent:
  assumes ok: "rows_ok W C" and len: "length C = W" and T: "length T = W" and i: "i < W"
    and li: "lin_indep W C" and bz: "below_zero i W C" and ud: "unit_diag i C"
  shows "case gauss_column W i (C, T) of (C', T') \<Rightarrow>
           rows_ok W C' \<and> length C' = W \<and> length T' = W \<and> lin_indep W C' \<and>
           below_zero (Suc i) W C' \<and> unit_diag (Suc i) C' \<and> (\<forall>x. solves C' T' x \<longrightarrow> solves C T x)"
proof -
  from pivot_exists [OF li ok len i bz] have "find (\<lambda>j. C ! j ! i) [i..<W] \<noteq> None"
    by (auto simp: find_upt_None)
  then obtain p where Some: "find (\<lambda>j. C ! j ! i) [i..<W] = Some p" by auto
  note p = find_upt_Some [OF Some]
  let ?C1 = "swap_rows p i C" and ?T1 = "swap_rows p i T"
  have pl: "p < length C" "i < length C" using p i len by simp_all
  have ok1: "rows_ok W ?C1" using ok pl by (rule rows_ok_swap_rows)
  have li1: "lin_indep W ?C1" using lin_indep_swap_rows [OF ok pl] li by simp
  have l1: "length ?C1 = W" "length ?T1 = length ?C1" using len T by (simp_all add: length_swap_rows)
  have s1: "solves ?C1 ?T1 x \<longleftrightarrow> solves C T x" for x
    using pl len T by (intro solves_swap) simp_all
  have mk: "mat_ok W W C T" using ok len T by (simp add: mat_ok_def rows_ok_def)
  obtain C' T' where r: "gauss_eliminate_below W i (?C1, ?T1) = (C', T')"
    by (cases "gauss_eliminate_below W i (?C1, ?T1)")
  from gauss_eliminate_below_props [OF ok1 i _ l1(2)] l1 r
  have 2: "length C' = W" "length T' = W" "rows_ok W C'" "lin_indep W C' \<longleftrightarrow> lin_indep W ?C1"
    "\<And>x. solves C' T' x \<Longrightarrow> solves ?C1 ?T1 x" by auto
  have gc: "gauss_column W i (C, T) = (C', T')" using Some r by (simp add: gauss_column_def)
  from below_zero_gauss_column [OF mk i i bz] gc have bz': "below_zero (Suc i) W C'" by simp
  from gauss_eliminate_below_shape [of i W ?C1 ?T1] i l1 r
  have C': "\<And>r. r < W \<Longrightarrow> C' ! r = (if i < r \<and> r < W \<and> ?C1 ! r ! i then xor_vectors (?C1 ! r) (?C1 ! i) else ?C1 ! r)"
    by auto
  have "C' ! c ! c" if "c < Suc i" for c
  proof (cases "c = i")
    case True
    then show ?thesis using C' [of i] i p(3) pl by (simp add: nth_swap_rows)
  next
    case False
    with that have ci: "c < i" by simp
    then have "C' ! c = C ! c" using C' [of c] i p(1) pl by (simp add: nth_swap_rows)
    with ud ci show ?thesis by (simp add: unit_diag_def)
  qed
  then have ud': "unit_diag (Suc i) C'" by (simp add: unit_diag_def)
  from 2 li1 s1 bz' ud' show ?thesis unfolding gc by auto
qed

lemma gauss_fold_independent:
  assumes ok: "rows_ok W C" and len: "length C = W" and T: "length T = W" and li: "lin_indep W C"
  shows "case fold (gauss_column W) [0..<W] (C, T) of (C', T') \<Rightarrow>
           rows_ok W C' \<and> length C' = W \<and> length T' = W \<and>
           below_zero W W C' \<and> unit_diag W C' \<and> (\<forall>x. solves C' T' x \<longrightarrow> solves C T x)"
proof -
  let ?P = "\<lambda>i CT. case CT of (C', T') \<Rightarrow>
           rows_ok W C' \<and> length C' = W \<and> length T' = W \<and> lin_indep W C' \<and>
           below_zero i W C' \<and> unit_diag i C' \<and> (\<forall>x. solves C' T' x \<longrightarrow> solves C T x)"
  have "?P W (fold (gauss_column W) [0..<W] (C, T))"
  proof (rule fold_upt_invariant [where P = ?P])
    show "?P 0 (C, T)" using assms by (simp add: below_zero_def unit_diag_def)
  next
    fix k CT assume k: "k < W" and P: "?P k CT"
    obtain C' T' where CT: "CT = (C', T')" by (cases CT)
    from P CT have 1: "rows_ok W C'" "length C' = W" "length T' = W" "lin_indep W C'"
      "below_zero k W C'" "unit_diag k C'" "\<And>x. solves C' T' x \<Longrightarrow> solves C T x" by auto
    from gauss_column_independent [OF 1(1,2,3) k 1(4,5,6)] 1(7)
    show "?P (Suc k) (gauss_column W k CT)" unfolding CT by (auto split: prod.splits)
  qed simp
  then show ?thesis by (auto split: prod.splits)
qed

section \<open>backwardSubstitute\<close>

lemma fold_xor_upt:
  "fold (\<lambda>i sub. sub \<noteq> g i) [a..<b] s0 = (s0 \<noteq> xor_sum b (\<lambda>i. a \<le> i \<and> g i))"
proof (cases "a \<le> b")
  case True
  let ?P = "\<lambda>k s. s = (s0 \<noteq> xor_sum k (\<lambda>i. a \<le> i \<and> g i))"
  show ?thesis
  proof (rule fold_upt_invariant [where P = ?P, OF True])
    have "\<not> xor_sum a (\<lambda>i. a \<le> i \<and> g i)" by (rule xor_sum_zero) simp
    then show "?P a s0" by simp
  next
    fix k s assume "a \<le> k" "?P k s"
    then show "?P (Suc k) (s \<noteq> g k)" by auto
  qed
next
  case False
  then have "\<not> xor_sum b (\<lambda>i. a \<le> i \<and> g i)" by (intro xor_sum_zero) simp
  with False show ?thesis by simp
qed

lemma backwardSubstitute_from_alt:
  "backwardSubstitute_from result0 s = fold (back_step s) (rev [0..<independent_rows s]) result0"
  unfolding backwardSubstitute_from_def back_step_def ..

lemma back_step_eq:
  "back_step s m r = r[m := (xor_sum (independent_rows s) (\<lambda>i. m < i \<and> r ! i \<and> contents s ! m ! i) \<noteq> targets s ! m)]"
proof -
  have "xor_sum (independent_rows s) (\<lambda>i. m + 1 \<le> i \<and> r ! i \<and> contents s ! m ! i)
      = xor_sum (independent_rows s) (\<lambda>i. m < i \<and> r ! i \<and> contents s ! m ! i)"
    by (rule xor_sum_cong) auto
  then show ?thesis unfolding back_step_def Let_def fold_xor_upt by simp
qed

lemma back_solved_step:
  assumes Q: "back_solved s (Suc m) r" and m: "m < independent_rows s"
  shows "back_solved s m (back_step s m r)"
proof -
  let ?n = "independent_rows s"
  let ?v = "xor_sum ?n (\<lambda>i. m < i \<and> r ! i \<and> contents s ! m ! i) \<noteq> targets s ! m"
  let ?r' = "r[m := ?v]"
  from Q have len: "length r = ?n"
    and old: "\<And>idx. Suc m \<le> idx \<Longrightarrow> idx < ?n \<Longrightarrow>
        r ! idx = (xor_sum ?n (\<lambda>i. idx < i \<and> r ! i \<and> contents s ! idx ! i) \<noteq> targets s ! idx)"
    by (auto simp: back_solved_def)
  have same: "xor_sum ?n (\<lambda>i. idx < i \<and> ?r' ! i \<and> contents s ! idx ! i)
            = xor_sum ?n (\<lambda>i. idx < i \<and> r ! i \<and> contents s ! idx ! i)" if "m \<le> idx" for idx
    by (rule xor_sum_cong) (use that in \<open>auto simp: nth_list_update\<close>)
  have "?r' ! idx = (xor_sum ?n (\<lambda>i. idx < i \<and> ?r' ! i \<and> contents s ! idx ! i) \<noteq> targets s ! idx)"
    if idx: "m \<le> idx" "idx < ?n" for idx
  proof (cases "idx = m")
    case True
    then show ?thesis unfolding same [OF idx(1)] using m len by simp
  next
    case False
    with idx have "Suc m \<le> idx" by simp
    from old [OF this idx(2)] False show ?thesis unfolding same [OF idx(1)] by simp
  qed
  then show ?thesis using len by (simp add: back_solved_def back_step_eq)
qed

lemma back_solved_fold:
  "m \<le> independent_rows s \<Longrightarrow> back_solved s m r \<Longrightarrow> back_solved s 0 (fold (back_step s) (rev [0..<m]) r)"
proof (induction m arbitrary: r)
  case 0
  then show ?case by simp
next
  case (Suc m)
  from Suc.prems have "back_solved s m (back_step s m r)" by (intro back_solved_step) simp_all
  with Suc.IH [of "back_step s m r"] Suc.prems(1) show ?case by simp
qed

lemma backwardSubstitute_solves:
  assumes n: "independent_rows s = W" and ok: "rows_ok W (contents s)" and len: "length (contents s) = W"
    and bz: "below_zero W W (contents s)" and ud: "unit_diag W (contents s)"
  shows "solves (contents s) (targets s) (backwardSubstitute W s)"
proof -
  let ?x = "backwardSubstitute W s"
  let ?C = "contents s"
  have "back_solved s W (replicate W False)" by (auto simp: back_solved_def n)
  with back_solved_fold [of W s "replicate W False"] n
  have "back_solved s 0 ?x"
    by (simp add: backwardSubstitute_def backwardSubstitute_from_alt)
  then have x: "\<And>idx. idx < W \<Longrightarrow>
        ?x ! idx = (xor_sum W (\<lambda>i. idx < i \<and> ?x ! i \<and> ?C ! idx ! i) \<noteq> targets s ! idx)"
    by (simp add: back_solved_def n)
  show ?thesis
    unfolding solves_def
  proof (intro allI impI)
    fix idx assume "idx < length ?C"
    then have idx: "idx < W" using len by simp
    have lr: "length (?C ! idx) = W" using ok idx len by (simp add: rows_ok_def)
    have d: "?C ! idx ! idx" using ud idx by (simp add: unit_diag_def)
    have z: "\<not> ?C ! idx ! i" if "i < idx" for i
      using bz that idx by (auto simp: below_zero_def)
    have "dot (?C ! idx) ?x = (xor_sum W (\<lambda>i. i \<noteq> idx \<and> ?C ! idx ! i \<and> ?x ! i) \<noteq> (?C ! idx ! idx \<and> ?x ! idx))"
      unfolding dot_def lr by (rule xor_sum_split [OF idx])
    also have "xor_sum W (\<lambda>i. i \<noteq> idx \<and> ?C ! idx ! i \<and> ?x ! i)
             = xor_sum W (\<lambda>i. idx < i \<and> ?x ! i \<and> ?C ! idx ! i)"
      by (rule xor_sum_cong) (use z in \<open>metis nat_neq_iff\<close>)
    finally show "dot (?C ! idx) ?x = targets s ! idx"
      using d x [OF idx] by auto
  qed
qed

section \<open>Independent equations are accepted and solved\<close>

lemma accepted_no_pending:
  assumes "independent_rows s = length (contents s)" "length (targets s) = length (contents s)"
  shows "accepted row t s = \<lparr>independent_rows = length (contents s) + 1,
           contents = contents s @ [row], targets = targets s @ [t]\<rparr>"
proof -
  have "swap_rows (length xs) (length xs) (xs @ [x]) = xs @ [x]" for xs :: "'a list" and x
    by (simp add: swap_rows_same)
  from this [of "contents s" row] this [of "targets s" t] assms
  show ?thesis by (simp add: accepted_def)
qed

lemma add_rows_independent:
  assumes "wf_solver W s" "independent_rows s = length (contents s)"
    "\<forall>eq\<in>set eqs. length (fst eq) = W" "lin_indep W (contents s @ map fst eqs)"
  shows "\<exists>s'. add_rows W s eqs = Inr s' \<and> contents s' = contents s @ map fst eqs \<and>
           targets s' = targets s @ map snd eqs \<and> independent_rows s' = length (contents s') \<and>
           wf_solver W s'"
  using assms
proof (induction eqs arbitrary: s)
  case Nil
  then show ?case by simp
next
  case (Cons eq eqs)
  let ?row = "fst eq" and ?t = "snd eq"
  from Cons.prems have wf: "wf_solver W s" and full: "independent_rows s = length (contents s)"
    and row: "length ?row = W" by simp_all
  have P: "prefix_rows s = contents s" using full by (simp add: prefix_rows_def)
  from Cons.prems(4) have "lin_indep W ((contents s @ [?row]) @ map fst eqs)" by simp
  then have li1: "lin_indep W (contents s @ [?row])" by (rule lin_indep_prefix)
  then have li: "lin_indep W (prefix_rows s)" and ns: "\<not> in_span W (prefix_rows s) ?row"
    using row by (simp_all add: lin_indep_snoc P)
  let ?s1 = "accepted ?row ?t s"
  from addRow_outcomes(1) [OF wf li row ns] have a: "addRow W ?row ?t s = Inr ?s1" .
  have lt: "length (targets s) = length (contents s)" using wf by (simp add: wf_solver_def)
  note s1 = accepted_no_pending [OF full lt, of ?row ?t]
  have wf1: "wf_solver W ?s1" using wf row by (rule wf_accepted)
  have "\<exists>s'. add_rows W ?s1 eqs = Inr s' \<and> contents s' = contents ?s1 @ map fst eqs \<and>
           targets s' = targets ?s1 @ map snd eqs \<and> independent_rows s' = length (contents s') \<and>
           wf_solver W s'"
    using wf1 Cons.prems(3,4) by (intro Cons.IH) (simp_all add: s1)
  then show ?case using a by (simp add: s1)
qed

text \<open>
  C3. \<open>Bits\<close> equations of width \<open>Bits\<close> with independent coefficient rows (they are then
  consistent) are all accepted by \<^verbatim>\<open>addRow\<close> on a new solver, the rank is \<open>Bits\<close>, and
  \<^verbatim>\<open>solve\<close> returns a vector whose dot product with every coefficient row is the target of
  that row.
\<close>

theorem independent_equations_solved:
  assumes "length eqs = Bits"
    and "\<forall>eq\<in>set eqs. length (fst eq) = Bits"
    and "lin_indep Bits (map fst eqs)"
  shows "\<exists>s x s'. add_rows Bits MatrixSolver eqs = Inr s \<and> getIndependent s = Bits \<and>
           solve Bits s = Inr (x, s') \<and> (\<forall>eq\<in>set eqs. dot (fst eq) x = snd eq)"
proof -
  have "wf_solver Bits MatrixSolver" by (simp add: wf_solver_def MatrixSolver_def)
  from add_rows_independent [OF this, of eqs] assms(2,3)
  obtain s where s: "add_rows Bits MatrixSolver eqs = Inr s" "contents s = map fst eqs"
    "targets s = map snd eqs" "independent_rows s = length (contents s)" "wf_solver Bits s"
    by (auto simp: MatrixSolver_def)
  have n: "independent_rows s = Bits" using s assms(1) by simp
  have ok: "rows_ok Bits (contents s)" using s(2) assms(2) by (simp add: rows_ok_def)
  have len: "length (contents s) = Bits" "length (targets s) = Bits" using s assms(1) by simp_all
  have li: "lin_indep Bits (contents s)" using s(2) assms(3) by simp
  let ?s' = "gaussianEliminate Bits s"
  obtain C' T' where f: "fold (gauss_column Bits) [0..<Bits] (contents s, targets s) = (C', T')"
    by (cases "fold (gauss_column Bits) [0..<Bits] (contents s, targets s)")
  from gauss_fold_independent [OF ok len li] f
  have g: "rows_ok Bits C'" "length C' = Bits" "below_zero Bits Bits C'" "unit_diag Bits C'"
    "\<And>x. solves C' T' x \<Longrightarrow> solves (contents s) (targets s) x" by auto
  have s': "contents ?s' = C'" "targets ?s' = T'" "independent_rows ?s' = Bits"
    using f n by (simp_all add: gaussianEliminate_def)
  let ?x = "backwardSubstitute Bits ?s'"
  have "solves (contents ?s') (targets ?s') ?x"
    using s' g by (intro backwardSubstitute_solves) simp_all
  then have "solves (contents s) (targets s) ?x" using g(5) s' by simp
  then have sv: "\<And>i. i < length eqs \<Longrightarrow> dot (map fst eqs ! i) ?x = map snd eqs ! i"
    unfolding solves_def s(2,3) by simp
  have sol: "\<forall>eq\<in>set eqs. dot (fst eq) ?x = snd eq"
  proof
    fix eq assume "eq \<in> set eqs"
    then obtain i where "i < length eqs" "eqs ! i = eq" by (auto simp: in_set_conv_nth)
    with sv [of i] show "dot (fst eq) ?x = snd eq" by simp
  qed
  have "solve Bits s = Inr (?x, ?s')" using n by (simp add: solve_def Let_def)
  with s(1) n sol show ?thesis by (auto simp: getIndependent_def)
qed

lemma back_solved_unique:
  assumes x: "back_solved s 0 x" and y: "back_solved s 0 y"
  shows "x = y"
proof -
  let ?n = "independent_rows s"
  have "x ! idx = y ! idx" if "idx < ?n" for idx
    using that
  proof (induction "?n - idx" arbitrary: idx rule: less_induct)
    case less
    have "xor_sum ?n (\<lambda>i. idx < i \<and> x ! i \<and> contents s ! idx ! i)
        = xor_sum ?n (\<lambda>i. idx < i \<and> y ! i \<and> contents s ! idx ! i)"
    proof (rule xor_sum_cong)
      fix i assume i: "i < ?n"
      show "(idx < i \<and> x ! i \<and> contents s ! idx ! i) = (idx < i \<and> y ! i \<and> contents s ! idx ! i)"
      proof (cases "idx < i")
        case True
        with less.hyps [of i] i have "x ! i = y ! i" by simp
        then show ?thesis by simp
      qed simp
    qed
    with x y less.prems show ?case by (simp add: back_solved_def)
  qed
  with x y show ?thesis by (auto simp: back_solved_def list_eq_iff_nth_eq)
qed

text \<open>The content of the local array \<^verbatim>\<open>result\<close> before the loop does not matter.\<close>

lemma backwardSubstitute_any_start:
  assumes "length result0 = independent_rows s" "independent_rows s = Width"
  shows "backwardSubstitute_from result0 s = backwardSubstitute Width s"
proof -
  have 1: "back_solved s Width result0" using assms by (auto simp: back_solved_def)
  have 2: "back_solved s Width (replicate Width False)" using assms by (auto simp: back_solved_def)
  from back_solved_fold [of Width s result0] back_solved_fold [of Width s "replicate Width False"] 1 2 assms
  show ?thesis
    unfolding backwardSubstitute_def backwardSubstitute_from_alt
    by (intro back_solved_unique) simp_all
qed

lemmas indep_eval = lin_indep_def comb_def dot_def contradicts_def in_span_def prefix_rows_def
  prefix_targets_def wf_solver_def numeral_2_eq_2 numeral_3_eq_3

lemma three_rows_independent:
  "lin_indep 3 [[True, True, False], [False, True, False], [False, False, True]]"
  by (simp add: indep_eval)

theorem independent_equations_solved_witness:
  "length [([True, True, False], False), ([False, True, False], True), ([False, False, True], True)] = 3 \<and>
   lin_indep 3 (map fst [([True, True, False], False), ([False, True, False], True), ([False, False, True], True)]) \<and>
   (\<exists>s x s'. add_rows 3 MatrixSolver
        [([True, True, False], False), ([False, True, False], True), ([False, False, True], True)] = Inr s \<and>
      getIndependent s = 3 \<and> solve 3 s = Inr (x, s') \<and>
      dot [True, True, False] x = False \<and> dot [False, True, False] x = True \<and>
      dot [False, False, True] x = True)"
proof -
  let ?eqs = "[([True, True, False], False), ([False, True, False], True), ([False, False, True], True)]"
  have 1: "length ?eqs = 3" by simp
  have 2: "\<forall>eq\<in>set ?eqs. length (fst eq) = 3" by simp
  have 3: "lin_indep 3 (map fst ?eqs)" using three_rows_independent by simp
  from independent_equations_solved [OF 1 2 3] 1 3 show ?thesis by auto
qed

theorem addRow_inconsistent_iff_witness:
  "wf_solver 2 \<lparr>independent_rows = 1, contents = [[True, False]], targets = [False]\<rparr> \<and>
   lin_indep 2 (prefix_rows \<lparr>independent_rows = 1, contents = [[True, False]], targets = [False]\<rparr>) \<and>
   contradicts 2 [[True, False]] [False] [True, False] True \<and>
   (\<exists>s'. addRow 2 [True, False] True \<lparr>independent_rows = 1, contents = [[True, False]], targets = [False]\<rparr>
      = Inl (Invalid_equation, s') \<and> getIndependent s' = 1)"
proof -
  let ?s = "\<lparr>independent_rows = 1, contents = [[True, False]], targets = [False]\<rparr>"
  have 1: "wf_solver 2 ?s" by (simp add: indep_eval)
  have 2: "lin_indep 2 (prefix_rows ?s)" by (simp add: indep_eval)
  have 3: "length [True, False] = 2" by simp
  have 4: "contradicts 2 (prefix_rows ?s) (prefix_targets ?s) [True, False] True" by (simp add: indep_eval)
  have 5: "contradicts 2 [[True, False]] [False] [True, False] True" by (simp add: indep_eval)
  from addRow_inconsistent_iff [OF 1 2 3, of True] 4
  have "\<exists>s'. addRow 2 [True, False] True ?s = Inl (Invalid_equation, s') \<and> getIndependent s' = 1"
    by (auto simp: getIndependent_def)
  with 1 2 5 show ?thesis by blast
qed

lemma sample_trace:
  "map getIndependent (MatrixSolver # trace 2 MatrixSolver
      [([True, False], False), ([True, False], True), ([False, True], True)]) = [0, 1, 1, 2]"
  by (simp add: solver_eval after_addRow_def)

theorem rank_invariant_witness:
  "length [True, False] = 2 \<and> length [False, True] = 2 \<and>
   map getIndependent (MatrixSolver # trace 2 MatrixSolver
      [([True, False], False), ([True, False], True), ([False, True], True)]) = [0, 1, 1, 2] \<and>
   sorted (map getIndependent (MatrixSolver # trace 2 MatrixSolver
      [([True, False], False), ([True, False], True), ([False, True], True)])) \<and>
   lin_indep 2 (prefix_rows (last (trace 2 MatrixSolver
      [([True, False], False), ([True, False], True), ([False, True], True)])))"
proof -
  let ?eqs = "[([True, False], False), ([True, False], True), ([False, True], True)]"
  have 1: "\<forall>eq\<in>set ?eqs. length (fst eq) = 2" by simp
  have "last (trace 2 MatrixSolver ?eqs) \<in> set (MatrixSolver # trace 2 MatrixSolver ?eqs)"
    by (simp del: trace.simps add: trace.simps(2) [of 2 MatrixSolver])
  with rank_invariant [OF 1] sample_trace show ?thesis by simp
qed

lemma swapped_solver_solve:
  "solve 2 \<lparr>independent_rows = 2, contents = [[False, True], [True, False]], targets = [True, False]\<rparr>
     = Inr ([False, True], \<lparr>independent_rows = 2, contents = [[True, False], [False, True]], targets = [False, True]\<rparr>)"
  by (simp add: solver_eval numeral_2_eq_2)

lemma swapped_solver_built:
  "add_rows 2 MatrixSolver [([False, True], True), ([True, False], False)]
     = Inr \<lparr>independent_rows = 2, contents = [[False, True], [True, False]], targets = [True, False]\<rparr>"
  by (simp add: solver_eval)

text \<open>
  C6 as stated fails in its second half: after adding the equations \<open>x1 = 1\<close> and
  \<open>x0 = 0\<close> (\<open>Width = 2\<close>), \<^verbatim>\<open>solve\<close> returns 01 and has swapped the two stored rows and
  their targets.
\<close>

theorem solve_twice_counterexample:
  "add_rows 2 MatrixSolver [([False, True], True), ([True, False], False)]
     = Inr \<lparr>independent_rows = 2, contents = [[False, True], [True, False]], targets = [True, False]\<rparr> \<and>
   solve 2 \<lparr>independent_rows = 2, contents = [[False, True], [True, False]], targets = [True, False]\<rparr>
     = Inr ([False, True], \<lparr>independent_rows = 2, contents = [[True, False], [False, True]], targets = [False, True]\<rparr>) \<and>
   \<lparr>independent_rows = 2, contents = [[True, False], [False, True]], targets = [False, True]\<rparr>
     \<noteq> \<lparr>independent_rows = 2, contents = [[False, True], [True, False]], targets = [True, False]\<rparr>"
  by (intro conjI swapped_solver_built swapped_solver_solve) simp

theorem solve_twice_witness:
  "wf_solver 2 \<lparr>independent_rows = 2, contents = [[False, True], [True, False]], targets = [True, False]\<rparr> \<and>
   solve 2 \<lparr>independent_rows = 2, contents = [[True, False], [False, True]], targets = [False, True]\<rparr>
     = Inr ([False, True], \<lparr>independent_rows = 2, contents = [[True, False], [False, True]], targets = [False, True]\<rparr>)"
proof -
  let ?s = "\<lparr>independent_rows = 2, contents = [[False, True], [True, False]], targets = [True, False]\<rparr>"
  have 1: "wf_solver 2 ?s" by (simp add: indep_eval)
  have 2: "getIndependent ?s = 2" by (simp add: getIndependent_def)
  from solve_twice [OF 1 2] swapped_solver_solve 1 show ?thesis by auto
qed

section \<open>A solver of unit rows\<close>






text \<open>Whatever an \<^verbatim>\<open>int\<close> shift gives, bit 32 of its conversion to \<^verbatim>\<open>size_t\<close> is its
  sign bit.\<close>

lemma int_to_size_t_bit_32: "bit (scast (v :: 32 word) :: size_t) 32 \<longleftrightarrow> bit (scast v :: size_t) 31"
  by (simp add: bit_simps)







end
